theory Spec2Isabelle
  imports Main "HOL-Library.Sublist"
begin

section \<open>go-search-logger: the search logger of internal/searchlogger/search_logger.go\<close>

text \<open>
  Go strings are byte sequences; they are modelled as \<open>string\<close> (lists of 8-bit
  characters). The two external stores behind the \<open>Logger\<close> struct are modelled
  by their contents: Redis as a partial map from keys to values, the table
  \<open>user_searches\<close> as the list of rows inserted so far. Every call to Redis or to
  the database may fail; which calls fail during one run of a function is an
  input of the model (\<open>faults\<close>). A failed \<open>SET\<close> or \<open>DEL\<close> leaves Redis
  as it was, and a transaction that is not committed leaves the table as it was.
  Expiry of keys (the TTLs of 10 seconds and one hour) is an event of the
  environment: the TTL is recorded with each \<open>SET\<close> call, and the listener is
  given the expired-key messages as an input.
\<close>

subsection \<open>The functions of package strings\<close>

text \<open>\<open>strings.HasPrefix(s, prefix)\<close>: \<open>len(s) >= len(prefix) && s[:len(prefix)] == prefix\<close>.\<close>

definition HasPrefix :: "string \<Rightarrow> string \<Rightarrow> bool" where
  "HasPrefix s pre = (length pre \<le> length s \<and> take (length pre) s = pre)"

text \<open>\<open>strings.TrimPrefix(s, prefix)\<close>.\<close>

definition TrimPrefix :: "string \<Rightarrow> string \<Rightarrow> string" where
  "TrimPrefix s pre = (if HasPrefix s pre then drop (length pre) s else s)"

text \<open>
  \<open>strings.TrimSpace\<close> removes the leading and the trailing white space
  runes of its argument, white space as \<open>unicode.IsSpace\<close> defines it: tab,
  line feed, vertical tab, form feed, carriage return, space, U+0085, U+00A0,
  U+1680, U+2000 to U+200A, U+2028, U+2029, U+202F, U+205F and U+3000. Strings
  are bytes, so each rune is listed by its UTF-8 encoding. Go decodes from the
  left with \<open>DecodeRuneInString\<close> and from the right with
  \<open>DecodeLastRuneInString\<close>; a string starts (ends) with a white space rune
  exactly when it starts (ends) with one of these encodings, since any other
  byte sequence decodes to another rune or, where it is invalid, to
  \<open>RuneError\<close>, which is not white space.
\<close>

definition spaceRunes :: "string list" where
  "spaceRunes =
     [[CHR 0x09], [CHR 0x0A], [CHR 0x0B], [CHR 0x0C], [CHR 0x0D], [CHR 0x20],
      [CHR 0xC2, CHR 0x85], [CHR 0xC2, CHR 0xA0],
      [CHR 0xE1, CHR 0x9A, CHR 0x80],
      [CHR 0xE2, CHR 0x80, CHR 0x80], [CHR 0xE2, CHR 0x80, CHR 0x81],
      [CHR 0xE2, CHR 0x80, CHR 0x82], [CHR 0xE2, CHR 0x80, CHR 0x83],
      [CHR 0xE2, CHR 0x80, CHR 0x84], [CHR 0xE2, CHR 0x80, CHR 0x85],
      [CHR 0xE2, CHR 0x80, CHR 0x86], [CHR 0xE2, CHR 0x80, CHR 0x87],
      [CHR 0xE2, CHR 0x80, CHR 0x88], [CHR 0xE2, CHR 0x80, CHR 0x89],
      [CHR 0xE2, CHR 0x80, CHR 0x8A],
      [CHR 0xE2, CHR 0x80, CHR 0xA8], [CHR 0xE2, CHR 0x80, CHR 0xA9],
      [CHR 0xE2, CHR 0x80, CHR 0xAF],
      [CHR 0xE2, CHR 0x81, CHR 0x9F],
      [CHR 0xE3, CHR 0x80, CHR 0x80]]"

text \<open>\<open>strings.TrimLeftFunc(s, unicode.IsSpace)\<close>\<close>

function trimLeft :: "string \<Rightarrow> string" where
  "trimLeft s = (case find (\<lambda>w. prefix w s) spaceRunes of
                   None \<Rightarrow> s
                 | Some w \<Rightarrow> trimLeft (drop (length w) s))"
  by pat_completeness auto
termination
proof (relation "measure length")
  show "wf (measure length)" by simp
next
  fix s w
  assume "find (\<lambda>w. prefix w s) spaceRunes = Some w"
  then have w: "w \<in> set spaceRunes" and p: "prefix w s"
    by (auto simp: find_Some_iff)
  from w have "w \<noteq> []" by (auto simp: spaceRunes_def)
  with p have "length (drop (length w) s) < length s"
    by (auto simp: prefix_def)
  then show "(drop (length w) s, s) \<in> measure length" by simp
qed

text \<open>\<open>strings.TrimRightFunc(s, unicode.IsSpace)\<close>\<close>

function trimRight :: "string \<Rightarrow> string" where
  "trimRight s = (case find (\<lambda>w. suffix w s) spaceRunes of
                    None \<Rightarrow> s
                  | Some w \<Rightarrow> trimRight (take (length s - length w) s))"
  by pat_completeness auto
termination
proof (relation "measure length")
  show "wf (measure length)" by simp
next
  fix s w
  assume "find (\<lambda>w. suffix w s) spaceRunes = Some w"
  then have w: "w \<in> set spaceRunes" and p: "suffix w s"
    by (auto simp: find_Some_iff)
  from w have "w \<noteq> []" by (auto simp: spaceRunes_def)
  with p have "length (take (length s - length w) s) < length s"
    by (auto simp: suffix_def)
  then show "(take (length s - length w) s, s) \<in> measure length" by simp
qed

declare trimLeft.simps [simp del]
declare trimRight.simps [simp del]

definition TrimSpace :: "string \<Rightarrow> string" where
  "TrimSpace s = trimRight (trimLeft s)"

text \<open>
  \<open>strings.ToLower\<close> maps every rune of its argument with
  \<open>unicode.ToLower\<close>, by the case tables of Go's library. It is not spelled
  out here: the functions below take it as the argument \<open>toLower\<close>, so
  that what is proved of them holds for Go's function.
\<close>

subsection \<open>Data\<close>

text \<open>\<open>type SearchEntry struct { UserID, Query, AnonID string }\<close>\<close>

record SearchEntry =
  UserID :: string
  Query :: string
  AnonID :: string

text \<open>
  A row of \<open>user_searches\<close> as \<open>insertQuery\<close> fills it: \<open>user_id = $1\<close>,
  \<open>search_text = $2\<close>, \<open>anon_id = $3\<close>. The column \<open>last_searched_at\<close> is
  \<open>NOW()\<close> of the database server and is left out.
\<close>

record row =
  user_id :: string
  search_text :: string
  anon_id :: string

datatype error =
    RedisNil
  | RedisFailure
  | BeginTxError
  | ExecError
  | CommitError
  | RedisSetError "error option" "error option"

text \<open>The calls made to the two external services, in the order they are made.\<close>

datatype call =
    GET string
  | SET string string nat
  | DEL string
  | BeginTx
  | Exec "string list"
  | Commit
  | Rollback

text \<open>
  The state behind a \<open>Logger\<close>: the contents of Redis, the rows of the table,
  and the calls made so far.
\<close>

record logger =
  Redis :: "string \<rightharpoonup> string"
  DB :: "row list"
  calls :: "call list"

text \<open>Which of the external calls of one run fail.\<close>

record faults =
  get_fails :: bool
  set1_fails :: bool
  set2_fails :: bool
  del_fails :: bool
  begin_fails :: bool
  exec_fails :: bool
  commit_fails :: bool

definition no_faults :: faults where
  "no_faults = \<lparr>get_fails = False, set1_fails = False, set2_fails = False, del_fails = False,
     begin_fails = False, exec_fails = False, commit_fails = False\<rparr>"

subsection \<open>The Redis client\<close>

text \<open>
  \<open>l.Redis.Get(ctx, key).Result()\<close>: the value and a nil error, or the empty
  string and an error, which is \<open>redis.Nil\<close> when the key does not exist.
\<close>

definition redis_Get :: "bool \<Rightarrow> logger \<Rightarrow> string \<Rightarrow> (string \<times> error option) \<times> logger" where
  "redis_Get fails l key =
     ((if fails then ([], Some RedisFailure)
       else (case Redis l key of None \<Rightarrow> ([], Some RedisNil) | Some v \<Rightarrow> (v, None))),
      l\<lparr>calls := calls l @ [GET key]\<rparr>)"

text \<open>\<open>l.Redis.Set(ctx, key, value, ttl).Err()\<close>, the TTL in seconds.\<close>

definition redis_Set :: "bool \<Rightarrow> logger \<Rightarrow> string \<Rightarrow> string \<Rightarrow> nat \<Rightarrow> error option \<times> logger" where
  "redis_Set fails l key v ttl =
     (if fails then (Some RedisFailure, l\<lparr>calls := calls l @ [SET key v ttl]\<rparr>)
      else (None, l\<lparr>Redis := (Redis l)(key \<mapsto> v), calls := calls l @ [SET key v ttl]\<rparr>))"

text \<open>\<open>l.Redis.Del(ctx, key).Err()\<close>\<close>

definition redis_Del :: "bool \<Rightarrow> logger \<Rightarrow> string \<Rightarrow> error option \<times> logger" where
  "redis_Del fails l key =
     (if fails then (Some RedisFailure, l\<lparr>calls := calls l @ [DEL key]\<rparr>)
      else (None, l\<lparr>Redis := (Redis l)(key := None), calls := calls l @ [DEL key]\<rparr>))"

subsection \<open>The functions of search\_logger.go\<close>

definition normalizeQuery :: "(string \<Rightarrow> string) \<Rightarrow> string \<Rightarrow> string" where
  "normalizeQuery toLower query = toLower (TrimSpace query)"

definition buildRedisKey :: "string \<Rightarrow> string" where
  "buildRedisKey userID = ''search:last:'' @ userID"

text \<open>
  \<open>generateAnonID\<close>: \<open>"anon" + fmt.Sprintf("%x", sha256.Sum256([]byte(userAgent)))\<close>.
  The digest is computed by Go's library; \<open>sum256\<close> stands for the function
  that maps a string to the hexadecimal text of its SHA-256 digest.
\<close>

definition generateAnonID :: "(string \<Rightarrow> string) \<Rightarrow> string \<Rightarrow> string" where
  "generateAnonID sum256 userAgent = ''anon'' @ sum256 userAgent"

text \<open>
  \<open>writeSearch\<close>: nothing is done for an empty query. Otherwise a transaction is
  begun, the row inserted and the transaction committed; a failed insert rolls
  the transaction back. Each failure is returned. The deferred function only
  acts on a panic, which it passes on after a rollback; panics are not
  modelled.
\<close>

definition writeSearch :: "faults \<Rightarrow> logger \<Rightarrow> SearchEntry \<Rightarrow> error option \<times> logger" where
  "writeSearch f l entry =
     (if Query entry = [] then (None, l)
      else if begin_fails f then (Some BeginTxError, l\<lparr>calls := calls l @ [BeginTx]\<rparr>)
      else
        let args = [UserID entry, Query entry, AnonID entry] in
        if exec_fails f
        then (Some ExecError, l\<lparr>calls := calls l @ [BeginTx, Exec args, Rollback]\<rparr>)
        else if commit_fails f
        then (Some CommitError, l\<lparr>calls := calls l @ [BeginTx, Exec args, Commit]\<rparr>)
        else (None,
              l\<lparr>DB := DB l @ [\<lparr>user_id = args ! 0, search_text = args ! 1, anon_id = args ! 2\<rparr>],
                calls := calls l @ [BeginTx, Exec args, Commit]\<rparr>))"

text \<open>
  Lines 51 to 65 of \<open>LogSearch\<close>: the caller is anonymous when the trimmed
  \<open>userID\<close> is empty; \<open>anonID\<close> is then generated from the user agent and is
  the identity used for the Redis keys, otherwise the identity is \<open>userID\<close> as
  it was given.
\<close>

definition isAnon :: "string \<Rightarrow> bool" where
  "isAnon userID = (TrimSpace userID = [])"

definition anonID :: "(string \<Rightarrow> string) \<Rightarrow> string \<Rightarrow> string \<Rightarrow> string" where
  "anonID sum256 userID userAgent = (if isAnon userID then generateAnonID sum256 userAgent else [])"

definition idForRedis :: "(string \<Rightarrow> string) \<Rightarrow> string \<Rightarrow> string \<Rightarrow> string" where
  "idForRedis sum256 userID userAgent =
     (if isAnon userID then anonID sum256 userID userAgent else userID)"

definition bufferKey :: "string \<Rightarrow> string" where
  "bufferKey ident = ''search:buffer:'' @ ident"

text \<open>
  Lines 84 to 91 of \<open>LogSearch\<close>: both keys are set, the second also when the
  first failed; one error is returned if either failed.
\<close>

definition setBoth :: "faults \<Rightarrow> logger \<Rightarrow> string \<Rightarrow> string \<Rightarrow> string \<Rightarrow> error option \<times> logger" where
  "setBoth f l redisKey bufKey normalizedQuery =
     (let (err1, l1) = redis_Set (set1_fails f) l redisKey normalizedQuery 10;
          (err2, l2) = redis_Set (set2_fails f) l1 bufKey normalizedQuery 3600
      in if err1 = None \<and> err2 = None then (None, l2)
         else (Some (RedisSetError err1 err2), l2))"

text \<open>The test of lines 69 and 70: the last query is "completely different".\<close>

definition isReset :: "string \<Rightarrow> string \<Rightarrow> bool" where
  "isReset lastQuery normalizedQuery =
     (lastQuery \<noteq> [] \<and> \<not> HasPrefix normalizedQuery lastQuery
        \<and> \<not> HasPrefix lastQuery normalizedQuery)"

definition LogSearch ::
  "(string \<Rightarrow> string) \<Rightarrow> (string \<Rightarrow> string) \<Rightarrow> faults \<Rightarrow> logger \<Rightarrow> string \<Rightarrow> string \<Rightarrow> string \<Rightarrow> error option \<times> logger" where
  "LogSearch toLower sum256 f l userID userAgent query =
     (let normalizedQuery = normalizeQuery toLower query in
      if normalizedQuery = [] then (None, l)
      else
        let ident = idForRedis sum256 userID userAgent;
            redisKey = buildRedisKey ident;
            bufKey = bufferKey ident;
            ((lastQuery, _), l1) = redis_Get (get_fails f) l redisKey
        in if isReset lastQuery normalizedQuery
           then (case writeSearch f l1
                        \<lparr>UserID = userID, Query = lastQuery,
                         AnonID = anonID sum256 userID userAgent\<rparr> of
                   (Some err, l2) \<Rightarrow> (Some err, l2)
                 | (None, l2) \<Rightarrow> setBoth f l2 redisKey bufKey normalizedQuery)
           else setBoth f l1 redisKey bufKey normalizedQuery)"

text \<open>
  The body of \<open>case msg := <-ch\<close> in \<open>StartKeyspaceListener\<close>, for a message
  with payload \<open>expiredKey\<close>.
\<close>

definition handleExpired :: "faults \<Rightarrow> logger \<Rightarrow> string \<Rightarrow> logger" where
  "handleExpired f l expiredKey =
     (if \<not> HasPrefix expiredKey ''search:last:'' then l
      else
        let userID = TrimPrefix expiredKey ''search:last:'';
            bufKey = ''search:buffer:'' @ userID;
            ((query, err), l1) = redis_Get (get_fails f) l bufKey
        in if err \<noteq> None then l1
           else
             let anon = HasPrefix userID ''anon'';
                 entry = \<lparr>UserID = (if anon then [] else userID), Query = query,
                          AnonID = (if anon then userID else [])\<rparr>
             in (case writeSearch f l1 entry of
                   (Some e, l2) \<Rightarrow> l2
                 | (None, l2) \<Rightarrow> snd (redis_Del (del_fails f) l2 bufKey)))"

text \<open>
  The loop of \<open>StartKeyspaceListener\<close> over the events it selects, each with the
  faults of its handling: a message of the subscription, or the cancellation
  of the context, which ends the loop.
\<close>

datatype event = Done | Message string

fun StartKeyspaceListener :: "logger \<Rightarrow> (faults \<times> event) list \<Rightarrow> logger" where
  "StartKeyspaceListener l [] = l"
| "StartKeyspaceListener l ((f, Done) # es) = l"
| "StartKeyspaceListener l ((f, Message expiredKey) # es) =
     StartKeyspaceListener (handleExpired f l expiredKey) es"

text \<open>A sequence of \<open>LogSearch\<close> calls, one after the other, with the errors they return.\<close>

fun LogSearches ::
  "(string \<Rightarrow> string) \<Rightarrow> (string \<Rightarrow> string) \<Rightarrow> logger \<Rightarrow> (faults \<times> string \<times> string \<times> string) list \<Rightarrow> error option list \<times> logger" where
  "LogSearches toLower sum256 l [] = ([], l)"
| "LogSearches toLower sum256 l ((f, userID, userAgent, query) # cs) =
     (let (err, l1) = LogSearch toLower sum256 f l userID userAgent query;
          (errs, l2) = LogSearches toLower sum256 l1 cs
      in (err # errs, l2))"

subsection \<open>Notions used to state the properties\<close>

text \<open>A string that consists of white space runes only.\<close>

inductive whiteSpace :: "string \<Rightarrow> bool" where
  empty: "whiteSpace []"
| rune: "w \<in> set spaceRunes \<Longrightarrow> whiteSpace s \<Longrightarrow> whiteSpace (w @ s)"

text \<open>
  No key of Redis holds the empty string. This is so in every state the
  program reaches from an empty cache: \<open>LogSearch\<close> only stores queries that
  are not empty, and the listener and the expiry of keys only remove keys.
\<close>

definition noEmptyValue :: "logger \<Rightarrow> bool" where
  "noEmptyValue l = (\<forall>k. Redis l k \<noteq> Some [])"

text \<open>
  The value a read of a key gives (\<open>lastQuery\<close> after line 66 of
  \<open>LogSearch\<close>, \<open>query\<close> after line 156 of the listener): the value held
  in Redis, or the empty string when the key is missing or the read failed.
\<close>

definition lastQueryOf :: "faults \<Rightarrow> logger \<Rightarrow> string \<Rightarrow> string" where
  "lastQueryOf f l key = fst (fst (redis_Get (get_fails f) l key))"

text \<open>The calls made between an earlier state and a later one.\<close>

definition newCalls :: "logger \<Rightarrow> logger \<Rightarrow> call list" where
  "newCalls l l' = drop (length (calls l)) (calls l')"

text \<open>All three steps of the transaction of \<open>writeSearch\<close> succeed.\<close>

definition tx_ok :: "faults \<Rightarrow> bool" where
  "tx_ok f = (\<not> begin_fails f \<and> \<not> exec_fails f \<and> \<not> commit_fails f)"

text \<open>
  The format of an identity made by \<open>generateAnonID\<close>: the marker \<open>anon\<close>
  followed by the 64 lower-case hexadecimal digits of a SHA-256 digest.
\<close>

definition isHexDigit :: "char \<Rightarrow> bool" where
  "isHexDigit c = (let n = (of_char c :: nat) in (48 \<le> n \<and> n \<le> 57) \<or> (97 \<le> n \<and> n \<le> 102))"

definition anonKeyFormat :: "string \<Rightarrow> bool" where
  "anonKeyFormat s = (HasPrefix s ''anon'' \<and> length s = 68 \<and> list_all isHexDigit (drop 4 s))"

text \<open>The Redis key a call is about, if it is a call to Redis.\<close>

fun redisKeyOf :: "call \<Rightarrow> string option" where
  "redisKeyOf (GET k) = Some k"
| "redisKeyOf (SET k v ttl) = Some k"
| "redisKeyOf (DEL k) = Some k"
| "redisKeyOf BeginTx = None"
| "redisKeyOf (Exec args) = None"
| "redisKeyOf Commit = None"
| "redisKeyOf Rollback = None"

text \<open>
  A burst: starting from the value \<open>h\<close>, each query is a prefix of the one
  before it or has the one before it as a prefix.
\<close>

fun burst :: "string \<Rightarrow> string list \<Rightarrow> bool" where
  "burst h [] = True"
| "burst h (q # qs) = ((prefix q h \<or> prefix h q) \<and> burst q qs)"

text \<open>The normalised queries of a sequence of calls that are not empty.\<close>

definition queriesOf :: "(string \<Rightarrow> string) \<Rightarrow> (faults \<times> string \<times> string \<times> string) list \<Rightarrow> string list" where
  "queriesOf toLower cs = filter (\<lambda>q. q \<noteq> []) (map (\<lambda>(f, userID, userAgent, query). normalizeQuery toLower query) cs)"

section \<open>Properties\<close>

text \<open>
  The properties hold for every function \<open>toLower\<close> and every digest
  \<open>sum256\<close>, so for those of Go's library. Each property is followed by
  an instance on concrete values. In the instances the queries are lower-case
  ASCII strings, which \<open>strings.ToLower\<close> returns as they are, so the
  identity stands for it; a simple function stands for the digest.
\<close>

subsection \<open>Auxiliary facts\<close>

lemma HasPrefix_prefix: "HasPrefix s pre = prefix pre s"
proof
  assume "HasPrefix s pre"
  then have "take (length pre) s = pre" by (simp add: HasPrefix_def)
  then show "prefix pre s" by (metis take_is_prefix)
next
  assume "prefix pre s"
  then obtain r where "s = pre @ r" by (auto simp: prefix_def)
  then show "HasPrefix s pre" by (simp add: HasPrefix_def)
qed

text \<open>White space runes and trimming.\<close>

lemma spaceRunes_nonempty: "w \<in> set spaceRunes \<Longrightarrow> w \<noteq> []"
  by (auto simp: spaceRunes_def)

text \<open>The first byte of a white space rune gives its length.\<close>

lemma rune_length:
  "w \<in> set spaceRunes \<Longrightarrow>
   length w = (if hd w = CHR 0xC2 then 2
               else if hd w = CHR 0xE1 \<or> hd w = CHR 0xE2 \<or> hd w = CHR 0xE3 then 3 else 1)"
  by (auto simp: spaceRunes_def)

lemma hd_prefix: "prefix w s \<Longrightarrow> w \<noteq> [] \<Longrightarrow> hd w = hd s"
  by (cases w; cases s) auto

lemma take_prefix: "prefix w s \<Longrightarrow> take (length w) s = w"
  by (auto simp: prefix_def)

lemma leading_unique:
  assumes "w \<in> set spaceRunes" "w' \<in> set spaceRunes" "prefix w s" "prefix w' s"
  shows "w = w'"
proof -
  from assms have "w \<noteq> []" "w' \<noteq> []" by (simp_all add: spaceRunes_nonempty)
  with assms(3,4) have "hd w = hd s" "hd w' = hd s" by (simp_all add: hd_prefix)
  with rune_length [OF assms(1)] rune_length [OF assms(2)] have "length w = length w'" by simp
  then have "take (length w) s = take (length w') s" by simp
  then show ?thesis
    by (simp only: take_prefix [OF assms(3)] take_prefix [OF assms(4)])
qed

lemma find_leading:
  assumes "w \<in> set spaceRunes" "prefix w s"
  shows "find (\<lambda>w. prefix w s) spaceRunes = Some w"
proof (cases "find (\<lambda>w. prefix w s) spaceRunes")
  case None
  with assms show ?thesis by (auto simp: find_None_iff)
next
  case (Some w')
  then have "w' \<in> set spaceRunes" "prefix w' s" by (auto simp: find_Some_iff)
  with assms have "w = w'" by (blast intro: leading_unique)
  with Some show ?thesis by simp
qed

lemma trimLeft_Nil: "trimLeft [] = []"
proof -
  have "find (\<lambda>w. prefix w []) spaceRunes = None"
    by (auto simp: find_None_iff dest: spaceRunes_nonempty)
  then show ?thesis by (simp add: trimLeft.simps [of "[]"])
qed

lemma trimRight_Nil: "trimRight [] = []"
proof -
  have "find (\<lambda>w. suffix w []) spaceRunes = None"
    by (auto simp: find_None_iff dest: spaceRunes_nonempty)
  then show ?thesis by (simp add: trimRight.simps [of "[]"])
qed

lemma trimLeft_rune: "w \<in> set spaceRunes \<Longrightarrow> trimLeft (w @ s) = trimLeft s"
  using find_leading [of w "w @ s"] by (simp add: trimLeft.simps [of "w @ s"])

lemma whiteSpace_trimLeft: "whiteSpace s \<Longrightarrow> trimLeft s = []"
  by (induction rule: whiteSpace.induct) (simp_all add: trimLeft_Nil trimLeft_rune)

lemma trimLeft_no_leading: "find (\<lambda>w. prefix w (trimLeft s)) spaceRunes = None"
proof (induction s rule: trimLeft.induct)
  case (1 s)
  show ?case
  proof (cases "find (\<lambda>w. prefix w s) spaceRunes")
    case None
    then show ?thesis by (simp add: trimLeft.simps [of s])
  next
    case (Some w)
    with 1 show ?thesis by (simp add: trimLeft.simps [of s])
  qed
qed

lemma trimLeft_whiteSpace: "trimLeft s = [] \<Longrightarrow> whiteSpace s"
proof (induction s rule: trimLeft.induct)
  case (1 s)
  show ?case
  proof (cases "find (\<lambda>w. prefix w s) spaceRunes")
    case None
    with 1(2) have "s = []" by (simp add: trimLeft.simps [of s])
    then show ?thesis by (simp add: whiteSpace.empty)
  next
    case (Some w)
    then have w: "w \<in> set spaceRunes" and p: "prefix w s" by (auto simp: find_Some_iff)
    from Some 1(2) have "trimLeft (drop (length w) s) = []" by (simp add: trimLeft.simps [of s])
    with 1(1) Some have "whiteSpace (drop (length w) s)" by simp
    with w have "whiteSpace (w @ drop (length w) s)" by (rule whiteSpace.rune)
    moreover from p have "w @ drop (length w) s = s" by (auto simp: prefix_def)
    ultimately show ?thesis by simp
  qed
qed

lemma whiteSpace_append: "whiteSpace s \<Longrightarrow> whiteSpace t \<Longrightarrow> whiteSpace (s @ t)"
  by (induction rule: whiteSpace.induct) (auto intro: whiteSpace.rune)

lemma whiteSpace_single: "w \<in> set spaceRunes \<Longrightarrow> whiteSpace w"
  using whiteSpace.rune [OF _ whiteSpace.empty, of w] by simp

lemma trimRight_whiteSpace: "trimRight s = [] \<Longrightarrow> whiteSpace s"
proof (induction s rule: trimRight.induct)
  case (1 s)
  show ?case
  proof (cases "find (\<lambda>w. suffix w s) spaceRunes")
    case None
    with 1(2) have "s = []" by (simp add: trimRight.simps [of s])
    then show ?thesis by (simp add: whiteSpace.empty)
  next
    case (Some w)
    then have w: "w \<in> set spaceRunes" and p: "suffix w s" by (auto simp: find_Some_iff)
    from Some 1(2) have "trimRight (take (length s - length w) s) = []"
      by (simp add: trimRight.simps [of s])
    with 1(1) Some have "whiteSpace (take (length s - length w) s)" by simp
    with w have "whiteSpace (take (length s - length w) s @ w)"
      by (simp add: whiteSpace_append whiteSpace_single)
    moreover from p have "take (length s - length w) s @ w = s" by (auto simp: suffix_def)
    ultimately show ?thesis by simp
  qed
qed

lemma whiteSpace_leading:
  "whiteSpace s \<Longrightarrow> s \<noteq> [] \<Longrightarrow> find (\<lambda>w. prefix w s) spaceRunes \<noteq> None"
proof (induction rule: whiteSpace.induct)
  case empty
  then show ?case by simp
next
  case (rune w s)
  then have "find (\<lambda>v. prefix v (w @ s)) spaceRunes = Some w" by (simp add: find_leading)
  then show ?case by simp
qed

text \<open>Trimming leaves nothing exactly of the strings that are white space only.\<close>

lemma TrimSpace_Nil_iff: "TrimSpace s = [] \<longleftrightarrow> whiteSpace s"
proof
  assume "TrimSpace s = []"
  then have "whiteSpace (trimLeft s)" by (simp add: TrimSpace_def trimRight_whiteSpace)
  with trimLeft_no_leading [of s] have "trimLeft s = []"
    using whiteSpace_leading by blast
  then show "whiteSpace s" by (rule trimLeft_whiteSpace)
next
  assume "whiteSpace s"
  then show "TrimSpace s = []" by (simp add: TrimSpace_def whiteSpace_trimLeft trimRight_Nil)
qed

lemma isAnon_iff: "isAnon u \<longleftrightarrow> whiteSpace u"
  by (simp add: isAnon_def TrimSpace_Nil_iff)

lemma not_whiteSpace_anon: "\<not> whiteSpace (''anon'' @ x)"
proof
  assume "whiteSpace (''anon'' @ x)"
  then have "find (\<lambda>w. prefix w (''anon'' @ x)) spaceRunes \<noteq> None"
    by (rule whiteSpace_leading) simp
  then show False by (simp add: spaceRunes_def)
qed

lemma key_neq_bufferKey: "buildRedisKey i \<noteq> bufferKey j"
  by (simp add: buildRedisKey_def bufferKey_def)

lemma writeSearch_DB:
  "DB (snd (writeSearch f l e)) =
     (if Query e \<noteq> [] \<and> tx_ok f
      then DB l @ [\<lparr>user_id = UserID e, search_text = Query e, anon_id = AnonID e\<rparr>] else DB l)"
  by (simp add: writeSearch_def Let_def tx_ok_def)

lemma writeSearch_Redis: "Redis (snd (writeSearch f l e)) = Redis l"
  by (simp add: writeSearch_def Let_def)

lemma writeSearch_err:
  "fst (writeSearch f l e) =
     (if Query e = [] then None else if begin_fails f then Some BeginTxError
      else if exec_fails f then Some ExecError
      else if commit_fails f then Some CommitError else None)"
  by (simp add: writeSearch_def Let_def)

lemma writeSearch_err_None: "fst (writeSearch f l e) = None \<longleftrightarrow> Query e = [] \<or> tx_ok f"
  by (simp add: writeSearch_err tx_ok_def)

lemma writeSearch_calls:
  "calls (snd (writeSearch f l e)) = calls l @
     (if Query e = [] then [] else if begin_fails f then [BeginTx]
      else if exec_fails f then [BeginTx, Exec [UserID e, Query e, AnonID e], Rollback]
      else [BeginTx, Exec [UserID e, Query e, AnonID e], Commit])"
  by (simp add: writeSearch_def Let_def)

lemma setBoth_Redis:
  "Redis (snd (setBoth f l k b q)) =
     (let r1 = (if set1_fails f then Redis l else (Redis l)(k \<mapsto> q))
      in if set2_fails f then r1 else r1(b \<mapsto> q))"
  by (simp add: setBoth_def redis_Set_def Let_def split: prod.splits)

lemma setBoth_DB: "DB (snd (setBoth f l k b q)) = DB l"
  by (simp add: setBoth_def redis_Set_def Let_def split: prod.splits)

lemma setBoth_calls: "calls (snd (setBoth f l k b q)) = calls l @ [SET k q 10, SET b q 3600]"
  by (simp add: setBoth_def redis_Set_def Let_def split: prod.splits)

lemma setBoth_err:
  "fst (setBoth f l k b q) =
     (if \<not> set1_fails f \<and> \<not> set2_fails f then None
      else Some (RedisSetError (if set1_fails f then Some RedisFailure else None)
                               (if set2_fails f then Some RedisFailure else None)))"
  by (simp add: setBoth_def redis_Set_def Let_def split: prod.splits)

lemma lastQueryOf_eq:
  "lastQueryOf f l key =
     (if get_fails f then [] else case Redis l key of None \<Rightarrow> [] | Some v \<Rightarrow> v)"
  by (simp add: lastQueryOf_def redis_Get_def split: option.splits)

text \<open>\<open>LogSearch\<close> on a query that is not empty after normalisation, step by step.\<close>

lemma LogSearch_nonempty:
  "normalizeQuery toLower query \<noteq> [] \<Longrightarrow>
   LogSearch toLower sum256 f l userID userAgent query =
     (let q = normalizeQuery toLower query;
          ident = idForRedis sum256 userID userAgent;
          h = lastQueryOf f l (buildRedisKey ident);
          l1 = l\<lparr>calls := calls l @ [GET (buildRedisKey ident)]\<rparr>;
          r = writeSearch f l1
                \<lparr>UserID = userID, Query = h, AnonID = anonID sum256 userID userAgent\<rparr>
      in if isReset h q
         then (if tx_ok f then setBoth f (snd r) (buildRedisKey ident) (bufferKey ident) q
               else r)
         else setBoth f l1 (buildRedisKey ident) (bufferKey ident) q)"
proof -
  assume n: "normalizeQuery toLower query \<noteq> []"
  let ?key = "buildRedisKey (idForRedis sum256 userID userAgent)"
  let ?h = "lastQueryOf f l ?key"
  let ?l1 = "l\<lparr>calls := calls l @ [GET ?key]\<rparr>"
  let ?r = "writeSearch f ?l1
              \<lparr>UserID = userID, Query = ?h, AnonID = anonID sum256 userID userAgent\<rparr>"
  obtain ge where g: "redis_Get (get_fails f) l ?key = ((?h, ge), ?l1)"
    by (cases "redis_Get (get_fails f) l ?key") (auto simp: lastQueryOf_def redis_Get_def)
  have e: "isReset ?h (normalizeQuery toLower query) \<Longrightarrow> (fst ?r = None) = tx_ok f"
    by (simp add: writeSearch_err_None isReset_def)
  show ?thesis
  proof (cases "isReset ?h (normalizeQuery toLower query)")
    case False
    with n show ?thesis
      by (simp add: LogSearch_def Let_def bufferKey_def [symmetric] g)
  next
    case True
    show ?thesis
    proof (cases "tx_ok f")
      case True
      with e [OF \<open>isReset ?h (normalizeQuery toLower query)\<close>] have "fst ?r = None" by simp
      then obtain l2 where "?r = (None, l2)" by (cases ?r) simp
      with n \<open>isReset ?h (normalizeQuery toLower query)\<close> True show ?thesis
        by (simp add: LogSearch_def Let_def g)
    next
      case False
      with e [OF \<open>isReset ?h (normalizeQuery toLower query)\<close>] have "fst ?r \<noteq> None" by simp
      then obtain err l2 where "?r = (Some err, l2)" by (cases ?r) auto
      with n \<open>isReset ?h (normalizeQuery toLower query)\<close> False show ?thesis
        by (simp add: LogSearch_def Let_def g)
    qed
  qed
qed

lemma LogSearch_empty:
  "normalizeQuery toLower query = [] \<Longrightarrow> LogSearch toLower sum256 f l userID userAgent query = (None, l)"
  by (simp add: LogSearch_def)

subsection \<open>Reset detection and the synchronous flush\<close>

text \<open>
  C1. Let \<open>q\<close> be the normalised query of a call of \<open>LogSearch\<close>, not empty, and
  \<open>h\<close> the head value the call reads for the resolved identity. The call goes
  to the database exactly when \<open>h\<close> is not empty, \<open>q\<close> is not a prefix of \<open>h\<close>
  and \<open>h\<close> is not a prefix of \<open>q\<close>. The table gains one row exactly when this
  holds and the transaction succeeds, and the row holds \<open>h\<close>, not \<open>q\<close>.
  Afterwards the head key holds \<open>q\<close>, unless the flush failed (the call returns
  before the cache is written) or the write of the head key itself failed.
\<close>

theorem C1_reset_flush:
  "normalizeQuery toLower query \<noteq> [] \<Longrightarrow>
   (let q = normalizeQuery toLower query;
        key = buildRedisKey (idForRedis sum256 userID userAgent);
        h = lastQueryOf f l key;
        reset = (h \<noteq> [] \<and> \<not> prefix q h \<and> \<not> prefix h q);
        l' = snd (LogSearch toLower sum256 f l userID userAgent query)
    in (BeginTx \<in> set (newCalls l l') \<longleftrightarrow> reset) \<and>
       DB l' = (if reset \<and> tx_ok f
                then DB l @ [\<lparr>user_id = userID, search_text = h,
                               anon_id = anonID sum256 userID userAgent\<rparr>]
                else DB l) \<and>
       Redis l' key = (if (reset \<and> \<not> tx_ok f) \<or> set1_fails f then Redis l key else Some q))"
  by (simp add: LogSearch_nonempty Let_def isReset_def HasPrefix_prefix newCalls_def
        writeSearch_DB writeSearch_Redis writeSearch_err_None writeSearch_calls
        setBoth_Redis setBoth_DB setBoth_calls key_neq_bufferKey)

theorem C1_reset_flush_witness:
  "normalizeQuery (\<lambda>s. s) ''dog'' \<noteq> [] \<and>
   DB (snd (LogSearch (\<lambda>s. s) (\<lambda>ua. []) no_faults
         \<lparr>Redis = [''search:last:user123'' \<mapsto> ''caterpillar''], DB = [], calls = []\<rparr>
         ''user123'' [] ''dog'')) =
     [\<lparr>user_id = ''user123'', search_text = ''caterpillar'', anon_id = []\<rparr>] \<and>
   Redis (snd (LogSearch (\<lambda>s. s) (\<lambda>ua. []) no_faults
         \<lparr>Redis = [''search:last:user123'' \<mapsto> ''caterpillar''], DB = [], calls = []\<rparr>
         ''user123'' [] ''dog'')) ''search:last:user123'' = Some ''dog''"
proof -
  have q: "normalizeQuery (\<lambda>s. s) ''dog'' = ''dog''" by code_simp
  have a: "isAnon ''user123'' = False" by code_simp
  show ?thesis
    using C1_reset_flush [of "\<lambda>s. s" "''dog''" "\<lambda>ua. []" "''user123''" "[]" no_faults
         "\<lparr>Redis = [''search:last:user123'' \<mapsto> ''caterpillar''], DB = [], calls = []\<rparr>"]
    by (simp add: q a Let_def idForRedis_def anonID_def buildRedisKey_def lastQueryOf_eq
          no_faults_def tx_ok_def)
qed

subsection \<open>Empty input\<close>

text \<open>
  C8. When the query is empty after normalisation, \<open>LogSearch\<close> returns no
  error and leaves everything as it was: Redis, the table and the list of
  calls, so no key is read or written and the database is not called. When
  the entry's query is empty, \<open>writeSearch\<close> returns no error and leaves
  everything as it was. Whenever \<open>writeSearch\<close> changes the table, it adds
  one row and the text of that row is not empty.
\<close>

theorem C8_empty_noop:
  "(normalizeQuery toLower query = [] \<longrightarrow>
      LogSearch toLower sum256 f l userID userAgent query = (None, l)) \<and>
   (Query e = [] \<longrightarrow> writeSearch f l e = (None, l)) \<and>
   (DB (snd (writeSearch f l e)) = DB l \<or>
    (Query e \<noteq> [] \<and>
     DB (snd (writeSearch f l e)) =
       DB l @ [\<lparr>user_id = UserID e, search_text = Query e, anon_id = AnonID e\<rparr>]))"
  by (simp add: LogSearch_empty writeSearch_DB) (simp add: writeSearch_def)

theorem C8_empty_noop_witness:
  "normalizeQuery (\<lambda>s. s) ''   '' = [] \<and>
   LogSearch (\<lambda>s. s) (\<lambda>ua. []) no_faults
      \<lparr>Redis = [''search:last:user123'' \<mapsto> ''cat''], DB = [], calls = []\<rparr>
      ''user123'' [] ''   '' =
     (None, \<lparr>Redis = [''search:last:user123'' \<mapsto> ''cat''], DB = [], calls = []\<rparr>) \<and>
   writeSearch no_faults \<lparr>Redis = Map.empty, DB = [], calls = []\<rparr>
      \<lparr>UserID = ''user123'', Query = [], AnonID = []\<rparr> =
     (None, \<lparr>Redis = Map.empty, DB = [], calls = []\<rparr>)"
proof -
  have q: "normalizeQuery (\<lambda>s. s) ''   '' = []" by code_simp
  show ?thesis
    using C8_empty_noop [of "\<lambda>s. s" "''   ''" "\<lambda>ua. []" no_faults
         "\<lparr>Redis = [''search:last:user123'' \<mapsto> ''cat''], DB = [], calls = []\<rparr>"
         "''user123''" "[]" "\<lparr>UserID = ''user123'', Query = [], AnonID = []\<rparr>"]
      C8_empty_noop [of "\<lambda>s. s" "''   ''" "\<lambda>ua. []" no_faults
         "\<lparr>Redis = Map.empty, DB = [], calls = []\<rparr>"
         "''user123''" "[]" "\<lparr>UserID = ''user123'', Query = [], AnonID = []\<rparr>"]
    by (simp add: q)
qed

subsection \<open>Failures\<close>

text \<open>
  C6. When \<open>LogSearch\<close> detects a reset and the transaction that writes the
  previous head value fails, the error of the failing step is returned, and
  Redis and the table are as they were: neither the head nor the buffer key is
  set to the new query. A second call with the same arguments that reads the
  head key successfully therefore reads the same value, goes to the database
  again with the same entry, and adds the row of the previous head value when
  its transaction succeeds.
\<close>

theorem C6_flush_failure:
  "normalizeQuery toLower query \<noteq> [] \<Longrightarrow>
   isReset (lastQueryOf f l (buildRedisKey (idForRedis sum256 userID userAgent)))
           (normalizeQuery toLower query) \<Longrightarrow>
   \<not> tx_ok f \<Longrightarrow>
   (let key = buildRedisKey (idForRedis sum256 userID userAgent);
        h = lastQueryOf f l key;
        r = LogSearch toLower sum256 f l userID userAgent query;
        l' = snd r
    in fst r = Some (if begin_fails f then BeginTxError
                     else if exec_fails f then ExecError else CommitError) \<and>
       Redis l' = Redis l \<and> DB l' = DB l \<and>
       (\<forall>f2. \<not> get_fails f2 \<longrightarrow>
          (let l2 = snd (LogSearch toLower sum256 f2 l' userID userAgent query)
           in lastQueryOf f2 l' key = h \<and>
              BeginTx \<in> set (newCalls l' l2) \<and>
              (\<not> begin_fails f2 \<longrightarrow>
                 Exec [userID, h, anonID sum256 userID userAgent] \<in> set (newCalls l' l2)) \<and>
              DB l2 = (if tx_ok f2
                       then DB l @ [\<lparr>user_id = userID, search_text = h,
                                      anon_id = anonID sum256 userID userAgent\<rparr>]
                       else DB l))))"
proof -
  assume n: "normalizeQuery toLower query \<noteq> []"
    and r: "isReset (lastQueryOf f l (buildRedisKey (idForRedis sum256 userID userAgent)))
              (normalizeQuery toLower query)"
    and t: "\<not> tx_ok f"
  let ?key = "buildRedisKey (idForRedis sum256 userID userAgent)"
  let ?h = "lastQueryOf f l ?key"
  let ?l' = "snd (LogSearch toLower sum256 f l userID userAgent query)"
  from r have h: "?h \<noteq> []" by (simp add: isReset_def)
  then have g: "\<not> get_fails f" by (auto simp: lastQueryOf_eq)
  have first: "fst (LogSearch toLower sum256 f l userID userAgent query) =
      Some (if begin_fails f then BeginTxError else if exec_fails f then ExecError else CommitError)"
    using n r t h by (auto simp: LogSearch_nonempty Let_def writeSearch_err tx_ok_def)
  have redis: "Redis ?l' = Redis l"
    using n r t by (simp add: LogSearch_nonempty Let_def writeSearch_Redis)
  have db: "DB ?l' = DB l"
    using n r t by (simp add: LogSearch_nonempty Let_def writeSearch_DB)
  have again: "lastQueryOf f2 ?l' ?key = ?h" if "\<not> get_fails f2" for f2
    using that g by (simp add: lastQueryOf_eq redis)
  have retry: "BeginTx \<in> set (newCalls ?l' (snd (LogSearch toLower sum256 f2 ?l' userID userAgent query))) \<and>
       (\<not> begin_fails f2 \<longrightarrow>
          Exec [userID, ?h, anonID sum256 userID userAgent]
            \<in> set (newCalls ?l' (snd (LogSearch toLower sum256 f2 ?l' userID userAgent query)))) \<and>
       DB (snd (LogSearch toLower sum256 f2 ?l' userID userAgent query)) =
         (if tx_ok f2
          then DB l @ [\<lparr>user_id = userID, search_text = ?h,
                         anon_id = anonID sum256 userID userAgent\<rparr>]
          else DB l)" if "\<not> get_fails f2" for f2
    using n r h again [OF that]
    by (simp add: LogSearch_nonempty [of toLower query sum256 f2 ?l'] Let_def newCalls_def
          writeSearch_DB writeSearch_calls setBoth_DB setBoth_calls db)
  show ?thesis
    using first redis db again retry by (simp add: Let_def)
qed

theorem C6_flush_failure_witness:
  "normalizeQuery (\<lambda>s. s) ''dog'' \<noteq> [] \<and>
   isReset ''caterpillar'' ''dog'' \<and>
   \<not> tx_ok (no_faults\<lparr>commit_fails := True\<rparr>) \<and>
   LogSearch (\<lambda>s. s) (\<lambda>ua. []) (no_faults\<lparr>commit_fails := True\<rparr>)
     \<lparr>Redis = [''search:last:user123'' \<mapsto> ''caterpillar''], DB = [], calls = []\<rparr>
     ''user123'' [] ''dog'' =
   (Some CommitError,
    \<lparr>Redis = [''search:last:user123'' \<mapsto> ''caterpillar''], DB = [],
      calls = [GET ''search:last:user123'', BeginTx,
               Exec [''user123'', ''caterpillar'', []], Commit]\<rparr>)"
proof -
  have q: "normalizeQuery (\<lambda>s. s) ''dog'' = ''dog''" by code_simp
  have a: "isAnon ''user123'' = False" by code_simp
  have r: "isReset ''caterpillar'' ''dog''"
    by (simp add: isReset_def HasPrefix_prefix)
  have t: "\<not> tx_ok (no_faults\<lparr>commit_fails := True\<rparr>)"
    by (simp add: tx_ok_def)
  have c: "calls (snd (LogSearch (\<lambda>s. s) (\<lambda>ua. []) (no_faults\<lparr>commit_fails := True\<rparr>)
     \<lparr>Redis = [''search:last:user123'' \<mapsto> ''caterpillar''], DB = [], calls = []\<rparr>
     ''user123'' [] ''dog'')) = [GET ''search:last:user123'', BeginTx,
               Exec [''user123'', ''caterpillar'', []], Commit]"
    using r
    by (simp add: LogSearch_nonempty q idForRedis_def lastQueryOf_eq Let_def writeSearch_calls
          anonID_def a no_faults_def buildRedisKey_def tx_ok_def)
  show ?thesis
    using C6_flush_failure [of "\<lambda>s. s" "''dog''" "no_faults\<lparr>commit_fails := True\<rparr>"
         "\<lparr>Redis = [''search:last:user123'' \<mapsto> ''caterpillar''], DB = [], calls = []\<rparr>"
         "\<lambda>ua. []" "''user123''" "[]"] r c
    by (simp add: q a idForRedis_def lastQueryOf_eq Let_def no_faults_def buildRedisKey_def
          tx_ok_def prod_eq_iff logger.equality)
qed

text \<open>
  C7, as stated, does not hold: the error of the head read is discarded, so a
  call whose head read fails returns no error and caches the query; and when
  only the write of the head key fails, the error is returned but the buffer
  key holds the query.
\<close>

theorem C7_counterexample:
  "fst (LogSearch (\<lambda>s. s) (\<lambda>ua. []) (no_faults\<lparr>get_fails := True\<rparr>)
          \<lparr>Redis = Map.empty, DB = [], calls = []\<rparr> ''user123'' [] ''cat'') = None \<and>
   Redis (snd (LogSearch (\<lambda>s. s) (\<lambda>ua. []) (no_faults\<lparr>get_fails := True\<rparr>)
          \<lparr>Redis = Map.empty, DB = [], calls = []\<rparr> ''user123'' [] ''cat''))
     ''search:last:user123'' = Some ''cat'' \<and>
   fst (LogSearch (\<lambda>s. s) (\<lambda>ua. []) (no_faults\<lparr>set1_fails := True\<rparr>)
          \<lparr>Redis = Map.empty, DB = [], calls = []\<rparr> ''user123'' [] ''cat'') =
     Some (RedisSetError (Some RedisFailure) None) \<and>
   Redis (snd (LogSearch (\<lambda>s. s) (\<lambda>ua. []) (no_faults\<lparr>set1_fails := True\<rparr>)
          \<lparr>Redis = Map.empty, DB = [], calls = []\<rparr> ''user123'' [] ''cat''))
     ''search:buffer:user123'' = Some ''cat''"
proof -
  have q: "normalizeQuery (\<lambda>s. s) ''cat'' = ''cat''" by code_simp
  have a: "isAnon ''user123'' = False" by code_simp
  show ?thesis
    by (simp add: LogSearch_nonempty q a idForRedis_def lastQueryOf_eq Let_def isReset_def
          setBoth_err setBoth_Redis no_faults_def buildRedisKey_def bufferKey_def)
qed

text \<open>
  C7, amended. For a call of \<open>LogSearch\<close> with a query that is not empty after
  normalisation: a failed head read is not reported; the head is taken to be
  empty, so no reset is detected and nothing is written to the table. When the
  call reaches the two cache writes (no reset was detected, or the flush
  succeeded), it returns an error exactly when one of the two writes fails; a
  failed write leaves its key as it was and the other write is kept, so the
  query is cached under each key whose write succeeded.
\<close>

theorem C7_cache_failure:
  "normalizeQuery toLower query \<noteq> [] \<Longrightarrow>
   (let q = normalizeQuery toLower query;
        ident = idForRedis sum256 userID userAgent;
        key = buildRedisKey ident;
        buf = bufferKey ident;
        h = lastQueryOf f l key;
        r = LogSearch toLower sum256 f l userID userAgent query;
        l' = snd r
    in (get_fails f \<longrightarrow> \<not> isReset h q \<and> DB l' = DB l) \<and>
       ((isReset h q \<longrightarrow> tx_ok f) \<longrightarrow>
          fst r = (if \<not> set1_fails f \<and> \<not> set2_fails f then None
                   else Some (RedisSetError (if set1_fails f then Some RedisFailure else None)
                                            (if set2_fails f then Some RedisFailure else None))) \<and>
          Redis l' key = (if set1_fails f then Redis l key else Some q) \<and>
          Redis l' buf = (if set2_fails f then Redis l buf else Some q)))"
proof -
  assume n: "normalizeQuery toLower query \<noteq> []"
  let ?key = "buildRedisKey (idForRedis sum256 userID userAgent)"
  have g: "get_fails f \<Longrightarrow> \<not> isReset (lastQueryOf f l ?key) (normalizeQuery toLower query)"
    by (simp add: lastQueryOf_eq isReset_def)
  have k: "bufferKey i \<noteq> buildRedisKey j" for i j
    using key_neq_bufferKey [of j i] by simp
  show ?thesis
    using n g
    by (auto simp: LogSearch_nonempty Let_def setBoth_err setBoth_Redis setBoth_DB
          writeSearch_Redis key_neq_bufferKey k)
qed

theorem C7_cache_failure_witness:
  "normalizeQuery (\<lambda>s. s) ''cat'' \<noteq> [] \<and>
   fst (LogSearch (\<lambda>s. s) (\<lambda>ua. []) (no_faults\<lparr>set2_fails := True\<rparr>)
          \<lparr>Redis = Map.empty, DB = [], calls = []\<rparr> ''user123'' [] ''cat'') =
     Some (RedisSetError None (Some RedisFailure)) \<and>
   Redis (snd (LogSearch (\<lambda>s. s) (\<lambda>ua. []) (no_faults\<lparr>set2_fails := True\<rparr>)
          \<lparr>Redis = Map.empty, DB = [], calls = []\<rparr> ''user123'' [] ''cat''))
     ''search:last:user123'' = Some ''cat'' \<and>
   Redis (snd (LogSearch (\<lambda>s. s) (\<lambda>ua. []) (no_faults\<lparr>set2_fails := True\<rparr>)
          \<lparr>Redis = Map.empty, DB = [], calls = []\<rparr> ''user123'' [] ''cat''))
     ''search:buffer:user123'' = None"
proof -
  have q: "normalizeQuery (\<lambda>s. s) ''cat'' = ''cat''" by code_simp
  have a: "isAnon ''user123'' = False" by code_simp
  show ?thesis
    using C7_cache_failure [of "\<lambda>s. s" "''cat''" "\<lambda>ua. []" "''user123''" "[]"
         "no_faults\<lparr>set2_fails := True\<rparr>" "\<lparr>Redis = Map.empty, DB = [], calls = []\<rparr>"]
    by (simp add: q a idForRedis_def lastQueryOf_eq Let_def isReset_def no_faults_def
          buildRedisKey_def bufferKey_def)
qed

subsection \<open>The expiry listener\<close>

text \<open>The handling of an expired key of the head namespace, step by step.\<close>

lemma handleExpired_head:
  "HasPrefix expiredKey ''search:last:'' \<Longrightarrow>
   handleExpired f l expiredKey =
     (let ident = TrimPrefix expiredKey ''search:last:'';
          l1 = l\<lparr>calls := calls l @ [GET (bufferKey ident)]\<rparr>
      in if get_fails f then l1
         else (case Redis l (bufferKey ident) of
                 None \<Rightarrow> l1
               | Some v \<Rightarrow>
                   let r = writeSearch f l1
                             \<lparr>UserID = (if HasPrefix ident ''anon'' then [] else ident),
                              Query = v,
                              AnonID = (if HasPrefix ident ''anon'' then ident else [])\<rparr>
                   in if v = [] \<or> tx_ok f
                      then snd (redis_Del (del_fails f) (snd r) (bufferKey ident))
                      else snd r))"
proof -
  assume p: "HasPrefix expiredKey ''search:last:''"
  let ?ident = "TrimPrefix expiredKey ''search:last:''"
  let ?l1 = "l\<lparr>calls := calls l @ [GET (bufferKey ?ident)]\<rparr>"
  show ?thesis
  proof (cases "get_fails f")
    case True
    with p show ?thesis
      by (simp add: handleExpired_def Let_def redis_Get_def bufferKey_def)
  next
    case False
    show ?thesis
    proof (cases "Redis l (bufferKey ?ident)")
      case None
      with p False show ?thesis
        by (simp add: handleExpired_def Let_def redis_Get_def bufferKey_def)
    next
      case (Some v)
      let ?e = "\<lparr>UserID = (if HasPrefix ?ident ''anon'' then [] else ?ident), Query = v,
                 AnonID = (if HasPrefix ?ident ''anon'' then ?ident else [])\<rparr>"
      have e: "(fst (writeSearch f ?l1 ?e) = None) = (v = [] \<or> tx_ok f)"
        by (simp add: writeSearch_err_None)
      obtain err l2 where w: "writeSearch f ?l1 ?e = (err, l2)"
        by (cases "writeSearch f ?l1 ?e")
      from e w have c: "(err = None) = (v = [] \<or> tx_ok f)" by simp
      from Some have s: "Redis l (''search:buffer:'' @ ?ident) = Some v"
        by (simp add: bufferKey_def)
      show ?thesis
      proof (cases err)
        case None
        with c p False Some s w show ?thesis
          by (simp add: handleExpired_def Let_def redis_Get_def bufferKey_def)
      next
        case (Some x)
        with c p False \<open>Redis l (bufferKey ?ident) = Some v\<close> s w show ?thesis
          by (simp add: handleExpired_def Let_def redis_Get_def bufferKey_def)
      qed
    qed
  qed
qed

lemma redis_Del_Redis:
  "Redis (snd (redis_Del fails l k)) = (if fails then Redis l else (Redis l)(k := None))"
  by (simp add: redis_Del_def)

lemma redis_Del_DB: "DB (snd (redis_Del fails l k)) = DB l"
  by (simp add: redis_Del_def)

text \<open>
  No operation stores the empty string: \<open>LogSearch\<close> sets its two keys to a
  query that is not empty, and the listener and the expiry of a key only
  remove keys.
\<close>

lemma noEmptyValue_LogSearch:
  "noEmptyValue l \<Longrightarrow> noEmptyValue (snd (LogSearch toLower sum256 f l userID userAgent query))"
proof (cases "normalizeQuery toLower query = []")
  case True
  assume "noEmptyValue l"
  with True show ?thesis by (simp add: LogSearch_empty)
next
  case False
  assume "noEmptyValue l"
  with False show ?thesis
    by (simp add: noEmptyValue_def LogSearch_nonempty Let_def writeSearch_Redis setBoth_Redis)
qed

lemma noEmptyValue_expiry: "noEmptyValue l \<Longrightarrow> noEmptyValue (l\<lparr>Redis := (Redis l)(k := None)\<rparr>)"
  by (simp add: noEmptyValue_def)

lemma noEmptyValue_handleExpired: "noEmptyValue l \<Longrightarrow> noEmptyValue (handleExpired f l k)"
proof (cases "HasPrefix k ''search:last:''")
  case True
  assume "noEmptyValue l"
  then show ?thesis
    by (auto simp: noEmptyValue_def handleExpired_head [OF True] Let_def redis_Del_Redis
          writeSearch_Redis split: option.splits)
next
  case False
  assume "noEmptyValue l"
  with False show ?thesis by (simp add: handleExpired_def)
qed

text \<open>
  C3. For an expired key of the head namespace, with \<open>ident\<close> the identity
  taken from the key and \<open>v\<close> the value the listener reads from the buffer key
  of \<open>ident\<close>, in a state where no key holds the empty string (every state
  the program reaches from an empty cache): when the read fails or gives
  nothing (\<open>v\<close> is empty) Redis and the table are left as they are. When \<open>v\<close>
  is not empty the transaction is begun once; if it succeeds, exactly one row
  with \<open>v\<close> is added and the buffer key is deleted (it stays only if the
  delete itself fails, whose error the listener discards); if it fails,
  Redis and the table are left as they are. After a handling in which the
  read, the transaction and the delete succeeded, a second notification for
  the same key writes nothing more. No key holds the empty string afterwards.
\<close>

theorem C3_expiry_flush:
  "HasPrefix expiredKey ''search:last:'' \<Longrightarrow> noEmptyValue l \<Longrightarrow>
   (let ident = TrimPrefix expiredKey ''search:last:'';
        buf = bufferKey ident;
        anon = HasPrefix ident ''anon'';
        v = lastQueryOf f l buf;
        l' = handleExpired f l expiredKey
    in (v = [] \<longrightarrow> Redis l' = Redis l \<and> DB l' = DB l) \<and>
       (v \<noteq> [] \<longrightarrow>
          length (filter (\<lambda>c. c = BeginTx) (newCalls l l')) = 1 \<and>
          (if tx_ok f
           then DB l' = DB l @ [\<lparr>user_id = (if anon then [] else ident), search_text = v,
                                  anon_id = (if anon then ident else [])\<rparr>] \<and>
                Redis l' = (if del_fails f then Redis l else (Redis l)(buf := None))
           else DB l' = DB l \<and> Redis l' = Redis l)) \<and>
       (\<not> get_fails f \<and> tx_ok f \<and> \<not> del_fails f \<longrightarrow>
          (\<forall>f2. DB (StartKeyspaceListener l [(f, Message expiredKey), (f2, Message expiredKey)])
                  = DB l')) \<and>
       noEmptyValue l')"
proof -
  assume p: "HasPrefix expiredKey ''search:last:''" and inv: "noEmptyValue l"
  let ?ident = "TrimPrefix expiredKey ''search:last:''"
  let ?buf = "bufferKey ?ident"
  let ?v = "lastQueryOf f l ?buf"
  let ?l' = "handleExpired f l expiredKey"
  from inv have ne: "Redis l ?buf \<noteq> Some []" by (simp add: noEmptyValue_def)
  have miss: "get_fails f \<or> Redis l ?buf = None" if "?v = []"
  proof (cases "Redis l ?buf")
    case None
    then show ?thesis by simp
  next
    case (Some x)
    with ne have "x \<noteq> []" by auto
    with Some that show ?thesis by (simp add: lastQueryOf_eq split: if_splits)
  qed
  have a: "?v = [] \<Longrightarrow> Redis ?l' = Redis l \<and> DB ?l' = DB l"
    using miss by (auto simp: handleExpired_head [OF p] Let_def)
  have hit: "\<not> get_fails f \<and> Redis l ?buf = Some ?v" if "?v \<noteq> []"
    using that by (cases "Redis l ?buf") (simp_all add: lastQueryOf_eq split: if_splits)
  have b: "length (filter (\<lambda>c. c = BeginTx) (newCalls l ?l')) = 1 \<and>
     DB ?l' = (if tx_ok f
               then DB l @ [\<lparr>user_id = (if HasPrefix ?ident ''anon'' then [] else ?ident),
                              search_text = ?v,
                              anon_id = (if HasPrefix ?ident ''anon'' then ?ident else [])\<rparr>]
               else DB l) \<and>
     Redis ?l' = (if tx_ok f \<and> \<not> del_fails f then (Redis l)(?buf := None) else Redis l)"
    if v: "?v \<noteq> []"
  proof -
    from hit [OF v] have g: "\<not> get_fails f" and r: "Redis l ?buf = Some ?v" by simp_all
    have h: "handleExpired f l expiredKey =
        (let r = writeSearch f (l\<lparr>calls := calls l @ [GET ?buf]\<rparr>)
                   \<lparr>UserID = (if HasPrefix ?ident ''anon'' then [] else ?ident), Query = ?v,
                    AnonID = (if HasPrefix ?ident ''anon'' then ?ident else [])\<rparr>
         in if tx_ok f then snd (redis_Del (del_fails f) (snd r) ?buf) else snd r)"
      using g r v by (simp add: handleExpired_head [OF p] Let_def)
    show ?thesis
      unfolding h using v
      by (simp add: Let_def redis_Del_Redis redis_Del_DB redis_Del_def writeSearch_DB
            writeSearch_Redis writeSearch_calls newCalls_def)
  qed
  have gone: "\<not> get_fails f \<Longrightarrow> tx_ok f \<Longrightarrow> \<not> del_fails f \<Longrightarrow> Redis ?l' ?buf = None"
  proof (cases "?v = []")
    case True
    assume "\<not> get_fails f"
    with True a ne show ?thesis
      by (auto simp: lastQueryOf_eq split: option.splits)
  next
    case False
    assume "\<not> get_fails f" "tx_ok f" "\<not> del_fails f"
    with b [OF False] show ?thesis by simp
  qed
  have c: "\<not> get_fails f \<Longrightarrow> tx_ok f \<Longrightarrow> \<not> del_fails f \<Longrightarrow>
       DB (handleExpired f2 ?l' expiredKey) = DB ?l'" for f2
    using gone by (simp add: handleExpired_head [OF p, of f2 ?l'] Let_def)
  have d: "noEmptyValue ?l'"
    using inv by (rule noEmptyValue_handleExpired)
  have b': "?v \<noteq> [] \<Longrightarrow>
     length (filter (\<lambda>c. c = BeginTx) (newCalls l ?l')) = 1 \<and>
     (if tx_ok f
      then DB ?l' = DB l @ [\<lparr>user_id = (if HasPrefix ?ident ''anon'' then [] else ?ident),
                              search_text = ?v,
                              anon_id = (if HasPrefix ?ident ''anon'' then ?ident else [])\<rparr>] \<and>
           Redis ?l' = (if del_fails f then Redis l else (Redis l)(?buf := None))
      else DB ?l' = DB l \<and> Redis ?l' = Redis l)"
    using b by simp
  show ?thesis
    unfolding Let_def using a b' c d by simp
qed

text \<open>
  An instance: the burst \<open>hello\<close> of the user \<open>user123\<close>, flushed on expiry;
  a second notification adds nothing.
\<close>

theorem C3_expiry_flush_witness:
  "HasPrefix ''search:last:user123'' ''search:last:'' \<and>
   noEmptyValue \<lparr>Redis = [''search:buffer:user123'' \<mapsto> ''hello''], DB = [], calls = []\<rparr> \<and>
   DB (handleExpired no_faults
         \<lparr>Redis = [''search:buffer:user123'' \<mapsto> ''hello''], DB = [], calls = []\<rparr>
         ''search:last:user123'') =
     [\<lparr>user_id = ''user123'', search_text = ''hello'', anon_id = []\<rparr>] \<and>
   Redis (handleExpired no_faults
         \<lparr>Redis = [''search:buffer:user123'' \<mapsto> ''hello''], DB = [], calls = []\<rparr>
         ''search:last:user123'') ''search:buffer:user123'' = None \<and>
   DB (StartKeyspaceListener
         \<lparr>Redis = [''search:buffer:user123'' \<mapsto> ''hello''], DB = [], calls = []\<rparr>
         [(no_faults, Message ''search:last:user123''),
          (no_faults, Message ''search:last:user123'')]) =
     [\<lparr>user_id = ''user123'', search_text = ''hello'', anon_id = []\<rparr>]"
proof -
  have p: "HasPrefix ''search:last:user123'' ''search:last:''"
    by (simp add: HasPrefix_def)
  have i: "noEmptyValue \<lparr>Redis = [''search:buffer:user123'' \<mapsto> ''hello''], DB = [], calls = []\<rparr>"
    by (simp add: noEmptyValue_def)
  have t: "TrimPrefix ''search:last:user123'' ''search:last:'' = ''user123''"
    by (simp add: TrimPrefix_def HasPrefix_def)
  have n: "\<not> HasPrefix ''user123'' ''anon''"
    by (simp add: HasPrefix_def)
  show ?thesis
    using C3_expiry_flush [OF p i, of no_faults]
    by (simp add: p i t n Let_def bufferKey_def no_faults_def tx_ok_def lastQueryOf_eq)
qed

subsection \<open>The identity fields of a row\<close>

text \<open>
  C4 fails on the reset path of \<open>LogSearch\<close> for a \<open>userID\<close> that is not empty
  but blank. The caller is taken as anonymous and the anonymous identity is
  generated, but the entry is built with \<open>userID\<close> as it was given: the row
  written for a \<open>userID\<close> of one space has both identity fields filled.
\<close>

theorem C4_both_fields_populated:
  "toLower ''dog'' = ''dog'' \<Longrightarrow>
   DB (snd (LogSearch toLower sum256 no_faults
         \<lparr>Redis = [buildRedisKey (generateAnonID sum256 ''ua'') \<mapsto> ''cat''], DB = [], calls = []\<rparr>
         '' '' ''ua'' ''dog'')) =
     [\<lparr>user_id = '' '', search_text = ''cat'', anon_id = ''anon'' @ sum256 ''ua''\<rparr>]"
proof -
  assume t: "toLower ''dog'' = ''dog''"
  have "TrimSpace ''dog'' = ''dog''" by code_simp
  with t have q: "normalizeQuery toLower ''dog'' = ''dog''" by (simp add: normalizeQuery_def)
  have a: "isAnon '' '' = True" by code_simp
  have r: "isReset ''cat'' ''dog''" by (simp add: isReset_def HasPrefix_prefix)
  show ?thesis
    using r
    by (simp add: LogSearch_nonempty q a idForRedis_def anonID_def lastQueryOf_eq Let_def
          writeSearch_DB setBoth_DB no_faults_def tx_ok_def generateAnonID_def)
qed

text \<open>
  An instance: \<open>strings.ToLower\<close> returns a lower-case ASCII string as it
  is, so the identity stands for it, and the user agent stands for its digest.
\<close>

theorem C4_both_fields_populated_witness:
  "(\<lambda>s. s) ''dog'' = ''dog'' \<and>
   DB (snd (LogSearch (\<lambda>s. s) (\<lambda>ua. ua) no_faults
         \<lparr>Redis = [''search:last:anonua'' \<mapsto> ''cat''], DB = [], calls = []\<rparr>
         '' '' ''ua'' ''dog'')) =
     [\<lparr>user_id = '' '', search_text = ''cat'', anon_id = ''anonua''\<rparr>]"
  using C4_both_fields_populated [of "\<lambda>s. s" "\<lambda>ua. ua"]
  by (simp add: buildRedisKey_def generateAnonID_def)

text \<open>
  C5 fails for a user identifier that begins with \<open>anon\<close>. \<open>LogSearch\<close> treats
  \<open>anonymous\<close> as the identifier of an authenticated user: it is the identity
  used for the keys and no anonymous identity is generated. It has not the
  format of a generated identity. The listener classifies it by its first
  four characters and writes it to the anonymous field of the row.
\<close>

theorem C5_prefix_misclassified:
  "idForRedis sum256 ''anonymous'' userAgent = ''anonymous'' \<and>
   anonID sum256 ''anonymous'' userAgent = [] \<and>
   \<not> anonKeyFormat ''anonymous'' \<and>
   DB (handleExpired no_faults
         \<lparr>Redis = [''search:buffer:anonymous'' \<mapsto> ''cats''], DB = [], calls = []\<rparr>
         ''search:last:anonymous'') =
     [\<lparr>user_id = [], search_text = ''cats'', anon_id = ''anonymous''\<rparr>]"
proof -
  have a: "isAnon ''anonymous'' = False" by code_simp
  have p: "HasPrefix ''search:last:anonymous'' ''search:last:''"
    by (simp add: HasPrefix_def)
  have t: "TrimPrefix ''search:last:anonymous'' ''search:last:'' = ''anonymous''"
    by (simp add: TrimPrefix_def HasPrefix_def)
  have n: "HasPrefix ''anonymous'' ''anon''"
    by (simp add: HasPrefix_def)
  show ?thesis
    by (simp add: a idForRedis_def anonID_def anonKeyFormat_def handleExpired_head [OF p] t n
          Let_def bufferKey_def no_faults_def tx_ok_def redis_Del_DB writeSearch_DB)
qed

subsection \<open>Identities and their keys\<close>

lemma buildRedisKey_inj: "buildRedisKey i = buildRedisKey j \<longleftrightarrow> i = j"
  by (simp add: buildRedisKey_def)

lemma bufferKey_inj: "bufferKey i = bufferKey j \<longleftrightarrow> i = j"
  by (simp add: bufferKey_def)

lemma bufferKey_neq_key: "bufferKey i \<noteq> buildRedisKey j"
  by (simp add: buildRedisKey_def bufferKey_def)

lemma idForRedis_eq:
  "idForRedis sum256 userID userAgent =
     (if isAnon userID then ''anon'' @ sum256 userAgent else userID)"
  by (simp add: idForRedis_def anonID_def generateAnonID_def)

lemma idForRedis_not_blank: "\<not> isAnon (idForRedis sum256 userID userAgent)"
  using not_whiteSpace_anon [of "sum256 userAgent"] by (simp add: idForRedis_eq isAnon_iff)

lemma LogSearch_DB:
  "DB (snd (LogSearch toLower sum256 f l userID userAgent query)) = DB l \<or>
   (\<exists>h. DB (snd (LogSearch toLower sum256 f l userID userAgent query)) =
          DB l @ [\<lparr>user_id = userID, search_text = h,
                     anon_id = anonID sum256 userID userAgent\<rparr>])"
proof (cases "normalizeQuery toLower query = []")
  case True
  then show ?thesis by (simp add: LogSearch_empty)
next
  case False
  then show ?thesis
    by (simp add: LogSearch_nonempty Let_def writeSearch_DB setBoth_DB)
qed

lemma LogSearch_Redis_frame:
  "k \<noteq> buildRedisKey (idForRedis sum256 userID userAgent) \<Longrightarrow>
   k \<noteq> bufferKey (idForRedis sum256 userID userAgent) \<Longrightarrow>
   Redis (snd (LogSearch toLower sum256 f l userID userAgent query)) k = Redis l k"
proof (cases "normalizeQuery toLower query = []")
  case True
  then show ?thesis by (simp add: LogSearch_empty)
next
  case False
  assume "k \<noteq> buildRedisKey (idForRedis sum256 userID userAgent)"
    and "k \<noteq> bufferKey (idForRedis sum256 userID userAgent)"
  with False show ?thesis
    by (simp add: LogSearch_nonempty Let_def writeSearch_Redis setBoth_Redis)
qed

lemma LogSearch_calls:
  "c \<in> set (newCalls l (snd (LogSearch toLower sum256 f l userID userAgent query))) \<Longrightarrow>
   redisKeyOf c = None \<or>
   redisKeyOf c = Some (buildRedisKey (idForRedis sum256 userID userAgent)) \<or>
   redisKeyOf c = Some (bufferKey (idForRedis sum256 userID userAgent))"
proof (cases "normalizeQuery toLower query = []")
  case True
  assume "c \<in> set (newCalls l (snd (LogSearch toLower sum256 f l userID userAgent query)))"
  with True show ?thesis by (simp add: LogSearch_empty newCalls_def)
next
  case False
  assume "c \<in> set (newCalls l (snd (LogSearch toLower sum256 f l userID userAgent query)))"
  with False show ?thesis
    by (auto simp: LogSearch_nonempty Let_def newCalls_def writeSearch_calls setBoth_calls
          split: if_splits)
qed

text \<open>
  C9. Let \<open>A\<close> be the identity a call of \<open>LogSearch\<close> resolves and \<open>B\<close> the
  identity resolved for another caller, different from \<open>A\<close>. The call leaves
  the head and the buffer entry of \<open>B\<close> as they were, every Redis call it
  makes is on the head key or the buffer key of \<open>A\<close>, and every row it adds
  carries \<open>A\<close> in one of its identity fields and \<open>B\<close> in neither.
\<close>

theorem C9_isolation:
  "idForRedis sum256 userID userAgent \<noteq> idForRedis sum256 userID' userAgent' \<Longrightarrow>
   (let A = idForRedis sum256 userID userAgent;
        B = idForRedis sum256 userID' userAgent';
        l' = snd (LogSearch toLower sum256 f l userID userAgent query)
    in Redis l' (buildRedisKey B) = Redis l (buildRedisKey B) \<and>
       Redis l' (bufferKey B) = Redis l (bufferKey B) \<and>
       (\<forall>c\<in>set (newCalls l l').
          redisKeyOf c = None \<or> redisKeyOf c = Some (buildRedisKey A) \<or>
          redisKeyOf c = Some (bufferKey A)) \<and>
       (\<forall>r\<in>set (drop (length (DB l)) (DB l')).
          (user_id r = A \<or> anon_id r = A) \<and> user_id r \<noteq> B \<and> anon_id r \<noteq> B))"
proof -
  let ?A = "idForRedis sum256 userID userAgent"
  let ?B = "idForRedis sum256 userID' userAgent'"
  let ?l' = "snd (LogSearch toLower sum256 f l userID userAgent query)"
  assume ne: "?A \<noteq> ?B"
  have head: "Redis ?l' (buildRedisKey ?B) = Redis l (buildRedisKey ?B)"
    using ne by (simp add: LogSearch_Redis_frame buildRedisKey_inj key_neq_bufferKey)
  have buf: "Redis ?l' (bufferKey ?B) = Redis l (bufferKey ?B)"
    using ne by (simp add: LogSearch_Redis_frame bufferKey_inj bufferKey_neq_key)
  have B: "\<not> isAnon ?B" by (rule idForRedis_not_blank)
  then have Bne: "?B \<noteq> []" by (auto simp: isAnon_iff intro: whiteSpace.empty)
  have row: "(user_id r = ?A \<or> anon_id r = ?A) \<and> user_id r \<noteq> ?B \<and> anon_id r \<noteq> ?B"
    if "r = \<lparr>user_id = userID, search_text = h, anon_id = anonID sum256 userID userAgent\<rparr>"
    for r h
  proof (cases "isAnon userID")
    case True
    then have "anonID sum256 userID userAgent = ?A" by (simp add: idForRedis_def)
    moreover from True B have "userID \<noteq> ?B" by auto
    ultimately show ?thesis using that ne by simp
  next
    case False
    then have "userID = ?A" and "anonID sum256 userID userAgent = []"
      by (simp_all add: idForRedis_def anonID_def)
    then show ?thesis using that ne Bne by auto
  qed
  have rows: "\<forall>r\<in>set (drop (length (DB l)) (DB ?l')).
      (user_id r = ?A \<or> anon_id r = ?A) \<and> user_id r \<noteq> ?B \<and> anon_id r \<noteq> ?B"
    using LogSearch_DB [of toLower sum256 f l userID userAgent query] row by auto
  show ?thesis
    using head buf rows LogSearch_calls [of _ l toLower sum256 f userID userAgent query]
    by (simp add: Let_def)
qed

theorem C9_isolation_witness:
  "idForRedis (\<lambda>ua. ua) ''alice'' [] \<noteq> idForRedis (\<lambda>ua. ua) ''bob'' [] \<and>
   Redis (snd (LogSearch (\<lambda>s. s) (\<lambda>ua. ua) no_faults
            \<lparr>Redis = [''search:last:alice'' \<mapsto> ''cat'', ''search:last:bob'' \<mapsto> ''tea''],
              DB = [], calls = []\<rparr> ''alice'' [] ''dog''))
      ''search:last:bob'' = Some ''tea'' \<and>
   Redis (snd (LogSearch (\<lambda>s. s) (\<lambda>ua. ua) no_faults
            \<lparr>Redis = [''search:last:alice'' \<mapsto> ''cat'', ''search:last:bob'' \<mapsto> ''tea''],
              DB = [], calls = []\<rparr> ''alice'' [] ''dog''))
      ''search:buffer:bob'' = None \<and>
   LogSearch (\<lambda>s. s) (\<lambda>ua. ua) no_faults
            \<lparr>Redis = [''search:last:alice'' \<mapsto> ''cat'', ''search:last:bob'' \<mapsto> ''tea''],
              DB = [], calls = []\<rparr> ''alice'' [] ''dog'' =
     (None,
      \<lparr>Redis = [''search:last:alice'' \<mapsto> ''dog'', ''search:last:bob'' \<mapsto> ''tea'',
                ''search:buffer:alice'' \<mapsto> ''dog''],
        DB = [\<lparr>user_id = ''alice'', search_text = ''cat'', anon_id = []\<rparr>],
        calls = [GET ''search:last:alice'', BeginTx, Exec [''alice'', ''cat'', []], Commit,
                 SET ''search:last:alice'' ''dog'' 10, SET ''search:buffer:alice'' ''dog'' 3600]\<rparr>)"
proof -
  let ?l = "\<lparr>Redis = [''search:last:alice'' \<mapsto> ''cat'', ''search:last:bob'' \<mapsto> ''tea''],
              DB = [], calls = []\<rparr>"
  have a: "isAnon ''alice'' = False" by code_simp
  have b: "isAnon ''bob'' = False" by code_simp
  have q: "normalizeQuery (\<lambda>s. s) ''dog'' = ''dog''" by code_simp
  have run: "LogSearch (\<lambda>s. s) (\<lambda>ua. ua) no_faults ?l ''alice'' [] ''dog'' =
     (None,
      \<lparr>Redis = [''search:last:alice'' \<mapsto> ''dog'', ''search:last:bob'' \<mapsto> ''tea'',
                ''search:buffer:alice'' \<mapsto> ''dog''],
        DB = [\<lparr>user_id = ''alice'', search_text = ''cat'', anon_id = []\<rparr>],
        calls = [GET ''search:last:alice'', BeginTx, Exec [''alice'', ''cat'', []], Commit,
                 SET ''search:last:alice'' ''dog'' 10, SET ''search:buffer:alice'' ''dog'' 3600]\<rparr>)"
    by (simp add: LogSearch_nonempty q a idForRedis_eq anonID_def lastQueryOf_eq Let_def
          isReset_def HasPrefix_prefix tx_ok_def no_faults_def buildRedisKey_def bufferKey_def
          writeSearch_def setBoth_def redis_Set_def fun_upd_twist)
  from C9_isolation [of "\<lambda>ua. ua" "''alice''" "[]" "''bob''" "[]" "\<lambda>s. s" no_faults ?l "''dog''"]
  have "idForRedis (\<lambda>ua. ua) ''alice'' [] \<noteq> idForRedis (\<lambda>ua. ua) ''bob'' [] \<and>
     Redis (snd (LogSearch (\<lambda>s. s) (\<lambda>ua. ua) no_faults ?l ''alice'' [] ''dog''))
       ''search:last:bob'' = Some ''tea'' \<and>
     Redis (snd (LogSearch (\<lambda>s. s) (\<lambda>ua. ua) no_faults ?l ''alice'' [] ''dog''))
       ''search:buffer:bob'' = None"
    by (simp add: idForRedis_eq a b Let_def buildRedisKey_def bufferKey_def)
  with run show ?thesis by blast
qed

text \<open>
  C10. A \<open>userID\<close> that consists of white space only (or is empty) resolves to
  the anonymous identity generated from the user agent; any other \<open>userID\<close> is
  the identity as it was given, untrimmed. The first call of \<open>LogSearch\<close> to
  Redis reads the head key built from that identity. Two identifiers that are
  not blank and differ, also when they are equal after trimming, resolve to
  different identities and have different head and buffer keys.
\<close>

theorem C10_untrimmed_identity:
  "(whiteSpace userID \<longrightarrow>
      idForRedis sum256 userID userAgent = ''anon'' @ sum256 userAgent) \<and>
   (\<not> whiteSpace userID \<longrightarrow> idForRedis sum256 userID userAgent = userID) \<and>
   (normalizeQuery toLower query \<noteq> [] \<longrightarrow>
      take 1 (newCalls l (snd (LogSearch toLower sum256 f l userID userAgent query))) =
        [GET (''search:last:'' @ idForRedis sum256 userID userAgent)]) \<and>
   (TrimSpace u \<noteq> [] \<and> TrimSpace u' = TrimSpace u \<and> u \<noteq> u' \<longrightarrow>
      idForRedis sum256 u userAgent \<noteq> idForRedis sum256 u' userAgent \<and>
      buildRedisKey (idForRedis sum256 u userAgent)
        \<noteq> buildRedisKey (idForRedis sum256 u' userAgent) \<and>
      bufferKey (idForRedis sum256 u userAgent)
        \<noteq> bufferKey (idForRedis sum256 u' userAgent))"
proof -
  have first: "normalizeQuery toLower query \<noteq> [] \<Longrightarrow>
      take 1 (newCalls l (snd (LogSearch toLower sum256 f l userID userAgent query))) =
        [GET (''search:last:'' @ idForRedis sum256 userID userAgent)]"
    by (simp add: LogSearch_nonempty Let_def newCalls_def writeSearch_calls setBoth_calls
          buildRedisKey_def)
  have keys: "TrimSpace u \<noteq> [] \<Longrightarrow> TrimSpace u' = TrimSpace u \<Longrightarrow> u \<noteq> u' \<Longrightarrow>
      idForRedis sum256 u userAgent \<noteq> idForRedis sum256 u' userAgent"
    by (simp add: idForRedis_eq isAnon_def)
  show ?thesis
    using first keys
    by (simp add: idForRedis_eq isAnon_iff buildRedisKey_inj bufferKey_inj)
qed

text \<open>
  An instance: a \<open>userID\<close> of a no-break space (U+00A0) and a space is
  anonymous, and \<open>bob\<close> with a leading space is an identity of its own.
\<close>

theorem C10_untrimmed_identity_witness:
  "whiteSpace [CHR 0xC2, CHR 0xA0, CHR 0x20] \<and>
   idForRedis (\<lambda>ua. ua) [CHR 0xC2, CHR 0xA0, CHR 0x20] ''agent'' = ''anonagent'' \<and>
   \<not> whiteSpace '' bob'' \<and>
   idForRedis (\<lambda>ua. ua) '' bob'' ''agent'' = '' bob'' \<and>
   TrimSpace '' bob'' = TrimSpace ''bob'' \<and>
   buildRedisKey (idForRedis (\<lambda>ua. ua) ''bob'' ''agent'')
     \<noteq> buildRedisKey (idForRedis (\<lambda>ua. ua) '' bob'' ''agent'') \<and>
   normalizeQuery (\<lambda>s. s) ''cat'' \<noteq> [] \<and>
   take 1 (newCalls \<lparr>Redis = Map.empty, DB = [], calls = []\<rparr>
             (snd (LogSearch (\<lambda>s. s) (\<lambda>ua. ua) no_faults
                     \<lparr>Redis = Map.empty, DB = [], calls = []\<rparr>
                     '' bob'' ''agent'' ''cat''))) =
     [GET ''search:last: bob'']"
proof -
  have "TrimSpace [CHR 0xC2, CHR 0xA0, CHR 0x20] = []" by code_simp
  then have s: "whiteSpace [CHR 0xC2, CHR 0xA0, CHR 0x20]" by (simp only: TrimSpace_Nil_iff)
  have t: "TrimSpace '' bob'' = ''bob''" "TrimSpace ''bob'' = ''bob''" by code_simp+
  from t(1) have "TrimSpace '' bob'' \<noteq> []" by simp
  then have n: "\<not> whiteSpace '' bob''" by (simp only: TrimSpace_Nil_iff not_False_eq_True)
  from t(2) have "TrimSpace ''bob'' \<noteq> []" by simp
  then have n': "\<not> whiteSpace ''bob''" by (simp only: TrimSpace_Nil_iff not_False_eq_True)
  have q: "normalizeQuery (\<lambda>s. s) ''cat'' = ''cat''" by code_simp
  from C10_untrimmed_identity [of "[CHR 0xC2, CHR 0xA0, CHR 0x20]" "\<lambda>ua. ua" "''agent''"] s
  have 1: "idForRedis (\<lambda>ua. ua) [CHR 0xC2, CHR 0xA0, CHR 0x20] ''agent'' = ''anonagent''"
    by simp
  from C10_untrimmed_identity [of "'' bob''" "\<lambda>ua. ua" "''agent''" "\<lambda>s. s" "''cat''"
         "\<lparr>Redis = Map.empty, DB = [], calls = []\<rparr>" no_faults "''bob''" "'' bob''"] n t q
  have 2: "idForRedis (\<lambda>ua. ua) '' bob'' ''agent'' = '' bob'' \<and>
     take 1 (newCalls \<lparr>Redis = Map.empty, DB = [], calls = []\<rparr>
             (snd (LogSearch (\<lambda>s. s) (\<lambda>ua. ua) no_faults
                     \<lparr>Redis = Map.empty, DB = [], calls = []\<rparr>
                     '' bob'' ''agent'' ''cat''))) = [GET ''search:last: bob''] \<and>
     buildRedisKey (idForRedis (\<lambda>ua. ua) ''bob'' ''agent'')
       \<noteq> buildRedisKey (idForRedis (\<lambda>ua. ua) '' bob'' ''agent'')"
    by auto
  have t': "TrimSpace '' bob'' = TrimSpace ''bob''" by (simp add: t)
  have q': "normalizeQuery (\<lambda>s. s) ''cat'' \<noteq> []" by (simp add: q)
  from s n t' q' 1 2 show ?thesis by blast
qed

subsection \<open>Bursts\<close>

lemma queriesOf_Nil: "queriesOf toLower [] = []"
  by (simp add: queriesOf_def)

lemma queriesOf_Cons:
  "queriesOf toLower ((f, userID, userAgent, query) # cs) =
     (if normalizeQuery toLower query = [] then queriesOf toLower cs else normalizeQuery toLower query # queriesOf toLower cs)"
  by (simp add: queriesOf_def)

text \<open>
  One call inside a burst, with both cache writes succeeding: nothing is
  written to the table, no error is returned, and both keys hold the query.
\<close>

lemma LogSearch_in_burst:
  assumes n: "normalizeQuery toLower query \<noteq> []"
    and s: "\<not> set1_fails f" "\<not> set2_fails f"
    and b: "prefix (normalizeQuery toLower query)
                   (lastQueryOf no_faults l (buildRedisKey (idForRedis sum256 userID userAgent)))
          \<or> prefix (lastQueryOf no_faults l (buildRedisKey (idForRedis sum256 userID userAgent)))
                   (normalizeQuery toLower query)"
  shows "fst (LogSearch toLower sum256 f l userID userAgent query) = None"
    and "DB (snd (LogSearch toLower sum256 f l userID userAgent query)) = DB l"
    and "Redis (snd (LogSearch toLower sum256 f l userID userAgent query))
           (buildRedisKey (idForRedis sum256 userID userAgent)) = Some (normalizeQuery toLower query)"
    and "Redis (snd (LogSearch toLower sum256 f l userID userAgent query))
           (bufferKey (idForRedis sum256 userID userAgent)) = Some (normalizeQuery toLower query)"
proof -
  let ?key = "buildRedisKey (idForRedis sum256 userID userAgent)"
  have "lastQueryOf f l ?key = [] \<or> lastQueryOf f l ?key = lastQueryOf no_faults l ?key"
    by (simp add: lastQueryOf_eq no_faults_def)
  with b have r: "\<not> isReset (lastQueryOf f l ?key) (normalizeQuery toLower query)"
    by (auto simp: isReset_def HasPrefix_prefix)
  show "fst (LogSearch toLower sum256 f l userID userAgent query) = None"
    using n s r by (simp add: LogSearch_nonempty Let_def setBoth_err)
  show "DB (snd (LogSearch toLower sum256 f l userID userAgent query)) = DB l"
    using n r by (simp add: LogSearch_nonempty Let_def setBoth_DB)
  show "Redis (snd (LogSearch toLower sum256 f l userID userAgent query)) ?key
          = Some (normalizeQuery toLower query)"
    using n s r by (simp add: LogSearch_nonempty Let_def setBoth_Redis key_neq_bufferKey)
  show "Redis (snd (LogSearch toLower sum256 f l userID userAgent query))
          (bufferKey (idForRedis sum256 userID userAgent)) = Some (normalizeQuery toLower query)"
    using n s r by (simp add: LogSearch_nonempty Let_def setBoth_Redis)
qed

text \<open>A sequence of calls inside one burst, by induction over the calls.\<close>

lemma burst_run:
  "\<forall>c\<in>set cs. (case c of (f, userID, userAgent, query) \<Rightarrow>
        idForRedis sum256 userID userAgent = ident \<and> \<not> set1_fails f \<and> \<not> set2_fails f) \<Longrightarrow>
   burst (lastQueryOf no_faults l (buildRedisKey ident)) (queriesOf toLower cs) \<Longrightarrow>
   DB (snd (LogSearches toLower sum256 l cs)) = DB l \<and>
   list_all (\<lambda>e. e = None) (fst (LogSearches toLower sum256 l cs)) \<and>
   Redis (snd (LogSearches toLower sum256 l cs)) (buildRedisKey ident) =
     (if queriesOf toLower cs = [] then Redis l (buildRedisKey ident) else Some (last (queriesOf toLower cs))) \<and>
   Redis (snd (LogSearches toLower sum256 l cs)) (bufferKey ident) =
     (if queriesOf toLower cs = [] then Redis l (bufferKey ident) else Some (last (queriesOf toLower cs)))"
proof (induction cs arbitrary: l)
  case Nil
  then show ?case by (simp add: queriesOf_Nil)
next
  case (Cons c cs)
  obtain f userID userAgent query where c: "c = (f, userID, userAgent, query)"
    by (cases c) auto
  from Cons.prems(1) c have i: "idForRedis sum256 userID userAgent = ident"
    and s: "\<not> set1_fails f" "\<not> set2_fails f"
    and rest: "\<forall>c\<in>set cs. (case c of (f, userID, userAgent, query) \<Rightarrow>
        idForRedis sum256 userID userAgent = ident \<and> \<not> set1_fails f \<and> \<not> set2_fails f)"
    by simp_all
  let ?q = "normalizeQuery toLower query"
  let ?l1 = "snd (LogSearch toLower sum256 f l userID userAgent query)"
  have run: "LogSearches toLower sum256 l ((f, userID, userAgent, query) # cs) =
      (fst (LogSearch toLower sum256 f l userID userAgent query) # fst (LogSearches toLower sum256 ?l1 cs),
       snd (LogSearches toLower sum256 ?l1 cs))"
    by (simp split: prod.splits)
  show ?case
  proof (cases "?q = []")
    case True
    then have e: "LogSearch toLower sum256 f l userID userAgent query = (None, l)"
      by (rule LogSearch_empty)
    from True Cons.prems(2) c
    have "burst (lastQueryOf no_faults l (buildRedisKey ident)) (queriesOf toLower cs)"
      by (simp add: queriesOf_Cons)
    from Cons.IH [OF rest this] True show ?thesis
      unfolding c by (simp add: run e queriesOf_Cons del: LogSearches.simps)
  next
    case False
    from False Cons.prems(2) c
    have b: "prefix ?q (lastQueryOf no_faults l (buildRedisKey ident))
             \<or> prefix (lastQueryOf no_faults l (buildRedisKey ident)) ?q"
      and b': "burst ?q (queriesOf toLower cs)"
      by (simp_all add: queriesOf_Cons)
    note step = LogSearch_in_burst [OF False s, of l sum256 userID userAgent, unfolded i, OF b]
    from step(3) have "lastQueryOf no_faults ?l1 (buildRedisKey ident) = ?q"
      by (simp add: lastQueryOf_eq no_faults_def)
    with b' have "burst (lastQueryOf no_faults ?l1 (buildRedisKey ident)) (queriesOf toLower cs)"
      by simp
    from Cons.IH [OF rest this] False step show ?thesis
      unfolding c by (simp add: run queriesOf_Cons del: LogSearches.simps)
  qed
qed

lemma queriesOf_nonempty: "q \<in> set (queriesOf toLower cs) \<Longrightarrow> q \<noteq> []"
  by (simp add: queriesOf_def)

lemma buildRedisKey_head: "HasPrefix (buildRedisKey ident) ''search:last:''"
  by (simp add: buildRedisKey_def HasPrefix_def)

lemma TrimPrefix_buildRedisKey: "TrimPrefix (buildRedisKey ident) ''search:last:'' = ident"
  by (simp add: TrimPrefix_def buildRedisKey_def HasPrefix_def)

text \<open>
  C2. Take a sequence of \<open>LogSearch\<close> calls that all resolve to the identity
  \<open>ident\<close> and whose cache writes succeed, and let \<open>qs\<close> be their normalised
  queries that are not empty. If \<open>qs\<close> is a burst from the head value the
  sequence starts with (a missing head counts as the empty string, of which
  every query is an extension), then the table after the sequence is the
  table before it, every call returns no error, and, when \<open>qs\<close> is not empty,
  the head key and the buffer key of \<open>ident\<close> both hold the last query of
  \<open>qs\<close>. That value is what is flushed next: by the listener when the head key
  expires, and by a later call of \<open>LogSearch\<close> for \<open>ident\<close> that detects a
  reset (each with a successful read and transaction).
\<close>

theorem C2_burst_no_flush:
  "\<forall>c\<in>set cs. (case c of (f, userID, userAgent, query) \<Rightarrow>
        idForRedis sum256 userID userAgent = ident \<and> \<not> set1_fails f \<and> \<not> set2_fails f) \<Longrightarrow>
   burst (lastQueryOf no_faults l (buildRedisKey ident)) (queriesOf toLower cs) \<Longrightarrow>
   (let qs = queriesOf toLower cs;
        l' = snd (LogSearches toLower sum256 l cs)
    in DB l' = DB l \<and>
       list_all (\<lambda>e. e = None) (fst (LogSearches toLower sum256 l cs)) \<and>
       (qs \<noteq> [] \<longrightarrow>
          Redis l' (buildRedisKey ident) = Some (last qs) \<and>
          Redis l' (bufferKey ident) = Some (last qs) \<and>
          (\<forall>f'. \<not> get_fails f' \<and> tx_ok f' \<longrightarrow>
             DB (handleExpired f' l' (buildRedisKey ident)) =
               DB l @ [\<lparr>user_id = (if HasPrefix ident ''anon'' then [] else ident),
                          search_text = last qs,
                          anon_id = (if HasPrefix ident ''anon'' then ident else [])\<rparr>]) \<and>
          (\<forall>f' userID userAgent query.
             idForRedis sum256 userID userAgent = ident \<and> \<not> get_fails f' \<and> tx_ok f' \<and>
             isReset (last qs) (normalizeQuery toLower query) \<longrightarrow>
             DB (snd (LogSearch toLower sum256 f' l' userID userAgent query)) =
               DB l @ [\<lparr>user_id = userID, search_text = last qs,
                          anon_id = anonID sum256 userID userAgent\<rparr>])))"
proof -
  assume p: "\<forall>c\<in>set cs. (case c of (f, userID, userAgent, query) \<Rightarrow>
        idForRedis sum256 userID userAgent = ident \<and> \<not> set1_fails f \<and> \<not> set2_fails f)"
    and b: "burst (lastQueryOf no_faults l (buildRedisKey ident)) (queriesOf toLower cs)"
  let ?qs = "queriesOf toLower cs"
  let ?l' = "snd (LogSearches toLower sum256 l cs)"
  note run = burst_run [OF p b]
  from run have db: "DB ?l' = DB l" by simp
  have later: "Redis ?l' (buildRedisKey ident) = Some (last ?qs) \<and>
      Redis ?l' (bufferKey ident) = Some (last ?qs) \<and>
      (\<forall>f'. \<not> get_fails f' \<and> tx_ok f' \<longrightarrow>
         DB (handleExpired f' ?l' (buildRedisKey ident)) =
           DB l @ [\<lparr>user_id = (if HasPrefix ident ''anon'' then [] else ident),
                      search_text = last ?qs,
                      anon_id = (if HasPrefix ident ''anon'' then ident else [])\<rparr>]) \<and>
      (\<forall>f' userID userAgent query.
         idForRedis sum256 userID userAgent = ident \<and> \<not> get_fails f' \<and> tx_ok f' \<and>
         isReset (last ?qs) (normalizeQuery toLower query) \<longrightarrow>
         DB (snd (LogSearch toLower sum256 f' ?l' userID userAgent query)) =
           DB l @ [\<lparr>user_id = userID, search_text = last ?qs,
                      anon_id = anonID sum256 userID userAgent\<rparr>])"
    if ne: "?qs \<noteq> []"
  proof -
    from run ne have head: "Redis ?l' (buildRedisKey ident) = Some (last ?qs)"
      and buf: "Redis ?l' (bufferKey ident) = Some (last ?qs)"
      by simp_all
    from ne have "last ?qs \<in> set ?qs" by simp
    then have v: "last ?qs \<noteq> []" by (rule queriesOf_nonempty)
    have expiry: "DB (handleExpired f' ?l' (buildRedisKey ident)) =
           DB l @ [\<lparr>user_id = (if HasPrefix ident ''anon'' then [] else ident),
                      search_text = last ?qs,
                      anon_id = (if HasPrefix ident ''anon'' then ident else [])\<rparr>]"
      if "\<not> get_fails f'" "tx_ok f'" for f'
      using that v buf
      by (simp add: handleExpired_head [OF buildRedisKey_head] TrimPrefix_buildRedisKey
            Let_def redis_Del_DB writeSearch_DB db)
    have reset: "DB (snd (LogSearch toLower sum256 f' ?l' userID userAgent query)) =
           DB l @ [\<lparr>user_id = userID, search_text = last ?qs,
                      anon_id = anonID sum256 userID userAgent\<rparr>]"
      if i: "idForRedis sum256 userID userAgent = ident" and g: "\<not> get_fails f'"
        and t: "tx_ok f'" and r: "isReset (last ?qs) (normalizeQuery toLower query)"
      for f' userID userAgent query
    proof -
      from r have n: "normalizeQuery toLower query \<noteq> []"
        by (auto simp: isReset_def HasPrefix_def)
      from g head have h: "lastQueryOf f' ?l' (buildRedisKey ident) = last ?qs"
        by (simp add: lastQueryOf_eq)
      from n r t v show ?thesis
        by (simp add: LogSearch_nonempty i h Let_def writeSearch_DB setBoth_DB db)
    qed
    from head buf expiry reset show ?thesis by blast
  qed
  from run later show ?thesis by (simp add: Let_def)
qed

theorem C2_burst_no_flush_witness:
  "idForRedis (\<lambda>ua. ua) ''user123'' [] = ''user123'' \<and>
   queriesOf (\<lambda>s. s) [(no_faults, ''user123'', [], ''t''), (no_faults, ''user123'', [], ''te''),
              (no_faults, ''user123'', [], ''tes''), (no_faults, ''user123'', [], ''te '')]
     = [''t'', ''te'', ''tes'', ''te''] \<and>
   burst [] [''t'', ''te'', ''tes'', ''te''] \<and>
   DB (snd (LogSearches (\<lambda>s. s) (\<lambda>ua. ua) \<lparr>Redis = Map.empty, DB = [], calls = []\<rparr>
       [(no_faults, ''user123'', [], ''t''), (no_faults, ''user123'', [], ''te''),
        (no_faults, ''user123'', [], ''tes''), (no_faults, ''user123'', [], ''te '')])) = [] \<and>
   Redis (snd (LogSearches (\<lambda>s. s) (\<lambda>ua. ua) \<lparr>Redis = Map.empty, DB = [], calls = []\<rparr>
       [(no_faults, ''user123'', [], ''t''), (no_faults, ''user123'', [], ''te''),
        (no_faults, ''user123'', [], ''tes''), (no_faults, ''user123'', [], ''te '')]))
     ''search:last:user123'' = Some ''te'' \<and>
   Redis (snd (LogSearches (\<lambda>s. s) (\<lambda>ua. ua) \<lparr>Redis = Map.empty, DB = [], calls = []\<rparr>
       [(no_faults, ''user123'', [], ''t''), (no_faults, ''user123'', [], ''te''),
        (no_faults, ''user123'', [], ''tes''), (no_faults, ''user123'', [], ''te '')]))
     ''search:buffer:user123'' = Some ''te'' \<and>
   DB (handleExpired no_faults
        (snd (LogSearches (\<lambda>s. s) (\<lambda>ua. ua) \<lparr>Redis = Map.empty, DB = [], calls = []\<rparr>
          [(no_faults, ''user123'', [], ''t''), (no_faults, ''user123'', [], ''te''),
           (no_faults, ''user123'', [], ''tes''), (no_faults, ''user123'', [], ''te '')]))
        ''search:last:user123'') =
     [\<lparr>user_id = ''user123'', search_text = ''te'', anon_id = []\<rparr>]"
proof -
  let ?cs = "[(no_faults, ''user123'', [], ''t''), (no_faults, ''user123'', [], ''te''),
              (no_faults, ''user123'', [], ''tes''), (no_faults, ''user123'', [], ''te '')]"
  let ?l = "\<lparr>Redis = Map.empty, DB = [], calls = []\<rparr>"
  have a: "isAnon ''user123'' = False" by code_simp
  have i: "idForRedis (\<lambda>ua. ua) ''user123'' [] = ''user123''"
    by (simp add: idForRedis_eq a)
  have n: "normalizeQuery (\<lambda>s. s) ''t'' = ''t''" "normalizeQuery (\<lambda>s. s) ''te'' = ''te''"
    "normalizeQuery (\<lambda>s. s) ''tes'' = ''tes''" "normalizeQuery (\<lambda>s. s) ''te '' = ''te''"
    by code_simp+
  have q: "queriesOf (\<lambda>s. s) ?cs = [''t'', ''te'', ''tes'', ''te'']"
    by (simp add: queriesOf_def n)
  have b: "burst [] [''t'', ''te'', ''tes'', ''te'']"
    by simp
  have h: "lastQueryOf no_faults ?l (buildRedisKey ''user123'') = []"
    by (simp add: lastQueryOf_eq no_faults_def)
  have p: "\<forall>c\<in>set ?cs. (case c of (f, userID, userAgent, query) \<Rightarrow>
        idForRedis (\<lambda>ua. ua) userID userAgent = ''user123'' \<and> \<not> set1_fails f \<and> \<not> set2_fails f)"
    by (simp add: i no_faults_def)
  have g: "burst (lastQueryOf no_faults ?l (buildRedisKey ''user123'')) (queriesOf (\<lambda>s. s) ?cs)"
    unfolding h q by (rule b)
  have f: "\<not> get_fails no_faults \<and> tx_ok no_faults"
    by (simp add: no_faults_def tx_ok_def)
  have u: "\<not> HasPrefix ''user123'' ''anon''"
    by (simp add: HasPrefix_def)
  have k: "buildRedisKey ''user123'' = ''search:last:user123''"
    "bufferKey ''user123'' = ''search:buffer:user123''"
    by (simp_all add: buildRedisKey_def bufferKey_def)
  from C2_burst_no_flush [OF p g] f
  have "DB (snd (LogSearches (\<lambda>s. s) (\<lambda>ua. ua) ?l ?cs)) = [] \<and>
     Redis (snd (LogSearches (\<lambda>s. s) (\<lambda>ua. ua) ?l ?cs)) ''search:last:user123'' = Some ''te'' \<and>
     Redis (snd (LogSearches (\<lambda>s. s) (\<lambda>ua. ua) ?l ?cs)) ''search:buffer:user123'' = Some ''te'' \<and>
     DB (handleExpired no_faults (snd (LogSearches (\<lambda>s. s) (\<lambda>ua. ua) ?l ?cs)) ''search:last:user123'') =
       [\<lparr>user_id = ''user123'', search_text = ''te'', anon_id = []\<rparr>]"
    unfolding q k Let_def by (simp add: u del: LogSearches.simps)
  with i q b show ?thesis by blast
qed

end
